theory Spec2Isabelle
  imports Main
begin

text \<open>
  A model of the channel library: the containers of \<open>container.ts\<close>, the engine of
  \<open>rw.ts\<close> (the revision with the free lists of action objects and with the refill
  of the buffer from a parked writer in \<open>tryRead\<close>), the channel and its case objects
  of \<open>chan.ts\<close>, and \<open>selectChan\<close> of \<open>select.ts\<close>. State is passed explicitly: an
  operation takes the world and returns its result with the world it leaves.

  \<open>chan.ts\<close> and \<open>select.ts\<close> release a connection by calling \<open>disconet()\<close> on
  it. The action objects of this revision of \<open>rw.ts\<close> have a method \<open>disconnect()\<close>
  and none called \<open>disconet\<close>, so every such call throws a \<open>TypeError\<close>; the model
  follows the code in this.
\<close>

section \<open>JavaScript values and arrays\<close>

text \<open>
  A TypeScript variable of type \<open>T\<close> can also hold \<open>undefined\<close> or \<open>null\<close>; it is
  modelled as a value of \<open>'a option\<close>, with \<open>None\<close> for both. An array is a list of such
  values, a hole reading as \<open>None\<close>. Reading an array past its end gives \<open>undefined\<close>,
  writing past its end grows the array with holes.
\<close>

definition js_get :: "'a option list \<Rightarrow> nat \<Rightarrow> 'a option" where
  "js_get xs i = (if i < length xs then xs ! i else None)"

definition js_set :: "'a option list \<Rightarrow> nat \<Rightarrow> 'a option \<Rightarrow> 'a option list" where
  "js_set xs i v =
     (if i < length xs then xs[i := v]
      else xs @ replicate (i - length xs) None @ [v])"

section \<open>container.ts: the ring buffer\<close>

text \<open>
  \<open>IteratorResult\<close>: only the truthiness of \<open>done\<close> is ever tested, so an absent
  \<open>done\<close> (as in \<open>{ value: v }\<close>) is \<open>False\<close>.
\<close>

record 'a IteratorResult =
  ir_done :: bool
  ir_value :: "'a option"

definition noResult :: "'a IteratorResult" where
  "noResult = \<lparr>ir_done = True, ir_value = None\<rparr>"

text \<open>
  The fields \<open>offset_\<close> and \<open>size_\<close> of the source are \<open>ring_offset\<close> and
  \<open>ring_size\<close> here, \<open>done\<close> and \<open>value\<close> of an iterator result are \<open>ir_done\<close>
  and \<open>ir_value\<close>.
\<close>

record 'a Ring =
  arrs :: "'a option list"
  ring_offset :: nat
  ring_size :: nat

text \<open>\<open>new Ring(new Array(n))\<close>: an array of \<open>n\<close> holes, offset and size 0.\<close>

definition Ring_new :: "nat \<Rightarrow> 'a Ring" where
  "Ring_new n = \<lparr>arrs = replicate n None, ring_offset = 0, ring_size = 0\<rparr>"

definition Ring_length :: "'a Ring \<Rightarrow> nat" where
  "Ring_length r = ring_size r"

definition Ring_capacity :: "'a Ring \<Rightarrow> nat" where
  "Ring_capacity r = length (arrs r)"

definition Ring_push :: "'a option \<Rightarrow> 'a Ring \<Rightarrow> bool \<times> 'a Ring" where
  "Ring_push val r =
     (if ring_size r = length (arrs r) then (False, r)
      else (True, r\<lparr>arrs := js_set (arrs r) ((ring_offset r + ring_size r) mod length (arrs r)) val,
                     ring_size := ring_size r + 1\<rparr>))"

text \<open>\<open>pop()\<close>, the form that returns an \<open>IteratorResult\<close>.\<close>

definition Ring_pop :: "'a Ring \<Rightarrow> 'a IteratorResult \<times> 'a Ring" where
  "Ring_pop r =
     (if ring_size r = 0 then (noResult, r)
      else
        let val = js_get (arrs r) (ring_offset r);
            arrs' = js_set (arrs r) (ring_offset r) None;
            off = ring_offset r + 1;
            off' = (if off = length arrs' then 0 else off)
        in (\<lparr>ir_done = False, ir_value = val\<rparr>,
            \<lparr>arrs = arrs', ring_offset = off', ring_size = ring_size r - 1\<rparr>))"

text \<open>\<open>pop(true)\<close>, the form that returns the value itself, or \<open>null\<close> when empty.\<close>

definition Ring_pop_true :: "'a Ring \<Rightarrow> 'a option \<times> 'a Ring" where
  "Ring_pop_true r =
     (if ring_size r = 0 then (None, r)
      else
        let val = js_get (arrs r) (ring_offset r);
            arrs' = js_set (arrs r) (ring_offset r) None;
            off = ring_offset r + 1;
            off' = (if off = length arrs' then 0 else off)
        in (val, \<lparr>arrs = arrs', ring_offset = off', ring_size = ring_size r - 1\<rparr>))"

text \<open>
  The values a ring holds, oldest first, and the shape every ring built by the
  constructor keeps: the offset inside the array and the size at most the capacity.
\<close>

definition Ring_contents :: "'a Ring \<Rightarrow> 'a option list" where
  "Ring_contents r =
     map (\<lambda>i. arrs r ! ((ring_offset r + i) mod length (arrs r))) [0..<ring_size r]"

definition Ring_inv :: "'a Ring \<Rightarrow> bool" where
  "Ring_inv r \<longleftrightarrow> ring_offset r < length (arrs r) \<and> ring_size r \<le> length (arrs r)"

section \<open>container.ts: the waiter set\<close>

record 'a Actions =
  actions :: "'a option list"
  keys :: "'a option \<rightharpoonup> nat"

definition Actions_new :: "'a Actions" where
  "Actions_new = \<lparr>actions = [], keys = Map.empty\<rparr>"

definition Actions_length :: "'a Actions \<Rightarrow> nat" where
  "Actions_length A = length (actions A)"

text \<open>
  The private \<open>_pop\<close>. On an empty array \<open>vals[-1] = null\<close> sets a property that is no
  element, \<open>vals.pop()\<close> changes nothing and the result is \<open>undefined\<close>.
\<close>

definition Actions__pop :: "'a Actions \<Rightarrow> 'a option \<times> 'a Actions" where
  "Actions__pop A =
     (if actions A = [] then (None, A)
      else (last (actions A), A\<lparr>actions := butlast (actions A)\<rparr>))"

definition Actions_pop :: "'a Actions \<Rightarrow> 'a option \<times> 'a Actions" where
  "Actions_pop A =
     (let (val, A1) = Actions__pop A
      in (val, A1\<lparr>keys := (keys A1)(val := None)\<rparr>))"

definition Actions_removeBy :: "nat \<Rightarrow> 'a Actions \<Rightarrow> 'a option \<times> 'a Actions" where
  "Actions_removeBy i A =
     (let (swap, A1) = Actions__pop A
      in if i = length (actions A1) then (swap, A1\<lparr>keys := (keys A1)(swap := None)\<rparr>)
         else
           let val = js_get (actions A1) i;
               k1 = (keys A1)(val := None)
           in (val, \<lparr>actions = js_set (actions A1) i swap, keys = k1(swap \<mapsto> i)\<rparr>))"

definition Actions_remove :: "'a option \<Rightarrow> 'a Actions \<Rightarrow> 'a Actions" where
  "Actions_remove val A =
     (case keys A val of
        None \<Rightarrow> A
      | Some i \<Rightarrow>
          let (swap, A1) = Actions__pop A;
              k1 = (keys A1)(val := None)
          in if i = length (actions A1) then A1\<lparr>keys := k1\<rparr>
             else \<lparr>actions = js_set (actions A1) i swap, keys = k1(swap \<mapsto> i)\<rparr>)"

definition Actions_clear :: "'a Actions \<Rightarrow> 'a Actions" where
  "Actions_clear A = \<lparr>actions = [], keys = Map.empty\<rparr>"

definition Actions_push :: "'a option \<Rightarrow> 'a Actions \<Rightarrow> 'a Actions" where
  "Actions_push val A =
     \<lparr>actions = actions A @ [val], keys = (keys A)(val \<mapsto> length (actions A))\<rparr>"

text \<open>
  The index coherence of the waiter set as the specification words it: every stored
  element has an index entry that points at a slot holding it, and the index has an
  entry for exactly the stored elements.
\<close>

definition index_coherent :: "'a Actions \<Rightarrow> bool" where
  "index_coherent A \<longleftrightarrow>
     (\<forall>w \<in> set (actions A). \<exists>i. keys A w = Some i \<and> i < length (actions A) \<and> actions A ! i = w)
     \<and> dom (keys A) = set (actions A)"

text \<open>The same with no element stored twice.\<close>

definition Actions_inv :: "'a Actions \<Rightarrow> bool" where
  "Actions_inv A \<longleftrightarrow> index_coherent A \<and> distinct (actions A)"

section \<open>types.ts: errors, options and result envelopes\<close>

text \<open>
  A value of TypeScript type \<open>any\<close> (an abort reason, a thrown value, the \<open>reason\<close>
  of an envelope): a plain value, \<open>Value None\<close> being \<open>undefined\<close>, a
  \<open>ChannelError\<close> with its message, or the \<open>TypeError\<close> that JavaScript raises when
  a method is called on \<open>undefined\<close>.
\<close>

datatype 'v js_any = Value "'v option" | ChannelError string | TypeError

text \<open>A call either returns or throws; the state it leaves is returned beside it.\<close>

datatype ('v, 'r) outcome = Return 'r | Throw "'v js_any"

text \<open>
  \<open>ReadValue\<close>: \<open>closed\<close> is \<open>true\<close>, \<open>false\<close> or \<open>null\<close>; an absent \<open>reason\<close> reads as
  \<open>undefined\<close>. \<open>WriteValue\<close>: \<open>ok\<close> is compared with \<open>undefined\<close> by the write case, so
  it is optional here; of \<open>error\<close> only the truthiness is tested.
\<close>

record 'v ReadValue =
  rv_closed :: "bool option"
  rv_reason :: "'v js_any"
  rv_ok :: bool
  rv_value :: "'v option"

record 'v WriteValue =
  wv_ok :: "bool option"
  wv_error :: bool
  wv_reason :: "'v js_any"

text \<open>
  \<open>ReadOptions\<close> and \<open>WriteOptions\<close>. A signal is named by a number; its state is in
  the world below. Omitted options are \<open>no_opts\<close>.
\<close>

record Options =
  signal :: "nat option"
  silent :: bool

definition no_opts :: Options where
  "no_opts = \<lparr>signal = None, silent = False\<rparr>"

section \<open>The objects of the library\<close>

text \<open>
  A case object of \<open>chan.ts\<close>: its identity, the channel it wraps and, for a write
  case, the value to send. Its outcome slot \<open>value_\<close> is mutable and lives in the world.
\<close>

datatype 'v chan_case = ReadCase nat nat | WriteCase nat nat "'v option"

text \<open>
  Callbacks are closures; each constructor below is one closure of the source with
  the variables it captures.
  \<^item> \<open>SelectCb p\<close>: the shared \<open>cb\<close> of the \<open>selectChan\<close> call whose promise is \<open>p\<close>.
    A callback that a caller of the public \<open>invoke(cb)\<close> supplies is known here only
    by how it ends, and it does not call the library again: \<open>NoopCb\<close> returns, as
    \<open>() => {}\<close> does, \<open>ThrowCb e\<close> throws \<open>e\<close>.
  \<^item> \<open>ChanReadCb p s\<close>: the callback \<open>Chan.read\<close> parks, resolving promise \<open>p\<close>, with
    the signal \<open>s\<close> of its options; \<open>ReadCaseCb k c cb\<close>: the one \<open>_ReadCase.invoke\<close>
    parks for case \<open>k\<close> on channel \<open>c\<close>.
  \<^item> \<open>ChanWriteCb p s silent\<close> and \<open>WriteCaseCb k c v cb\<close>: the same for writes.
\<close>

datatype 'v select_cb = SelectCb nat | NoopCb | ThrowCb "'v js_any"

datatype 'v rcb = ChanReadCb nat "nat option" | ReadCaseCb nat nat "'v select_cb"

datatype 'v wcb =
    ChanWriteCb nat "nat option" bool
  | WriteCaseCb nat nat "'v option" "'v select_cb"

text \<open>
  The action objects of \<open>rw.ts\<close>, with the mutable fields they have there. A
  \<open>Connection\<close> is such an object, of either class.
\<close>

record 'v ReadAction =
  reader :: "nat option"
  callback :: "'v rcb option"

record 'v WirteAction =
  writer :: "nat option"
  wa_value :: "'v option"
  wa_callback :: "'v wcb option"

datatype conn = RConn nat | WConn nat

record Reader =
  r_closed :: bool
  r_actions :: "nat Actions"

record Writer =
  w_closed :: bool
  w_actions :: "nat Actions"

text \<open>
  The engine. \<open>rw_reader\<close> and \<open>rw_writer\<close> are the fields \<open>r_\<close> and \<open>w_\<close>,
  \<open>rw_completer\<close> is \<open>closed_\<close>, the promise \<open>wait\<close> hands out.
\<close>

record 'v RW =
  list :: "'v Ring option"
  rw_reader :: Reader
  rw_writer :: Writer
  isClosed :: bool
  rw_completer :: "nat option"

text \<open>What a promise is settled with.\<close>

datatype 'v settled =
    ResolvedRead "'v ReadValue"
  | ResolvedWrite "'v WriteValue"
  | ResolvedCase "'v chan_case"
  | ResolvedAborted "'v js_any"
  | ResolvedNull
  | Rejected "'v js_any"

text \<open>
  The \<open>abort\<close> listeners the library registers, each a closure \<open>onAbort\<close>; the first
  argument is the promise of the call that registered it.
\<close>

datatype listener =
    ReadOnAbort nat nat bool
  | WriteOnAbort nat nat bool
  | SelectOnAbort nat
  | EmptySelectOnAbort nat bool

fun listener_owner :: "listener \<Rightarrow> nat" where
  "listener_owner (ReadOnAbort p a s) = p"
| "listener_owner (WriteOnAbort p a s) = p"
| "listener_owner (SelectOnAbort p) = p"
| "listener_owner (EmptySelectOnAbort p s) = p"

record 'v AbortSignal =
  aborted :: bool
  sig_reason :: "'v js_any"
  sig_listeners :: "listener list"

text \<open>The variables a pending \<open>selectChan\<close> call closes over.\<close>

record select_env =
  env_conns :: "conn list"
  env_silent :: bool
  env_signal :: "nat option"

text \<open>
  The world: every channel's engine, the heap of action objects with the two static
  free lists \<open>Reader.list\<close> and \<open>Writer.list\<close>, the outcome slots of the case objects,
  the promises, the pending selects and the signals.
\<close>

record 'v world =
  chans :: "nat \<Rightarrow> 'v RW"
  racts :: "nat \<Rightarrow> 'v ReadAction"
  wacts :: "nat \<Rightarrow> 'v WirteAction"
  next_ract :: nat
  next_wact :: nat
  Reader_list :: "nat Ring option"
  Writer_list :: "nat Ring option"
  rcase_value :: "nat \<Rightarrow> 'v ReadValue option"
  wcase_value :: "nat \<Rightarrow> 'v WriteValue option"
  promises :: "nat \<Rightarrow> 'v settled option"
  next_promise :: nat
  selects :: "nat \<Rightarrow> select_env"
  signals :: "nat \<Rightarrow> 'v AbortSignal"

definition upd_chan :: "nat \<Rightarrow> ('v RW \<Rightarrow> 'v RW) \<Rightarrow> 'v world \<Rightarrow> 'v world" where
  "upd_chan c f w = w\<lparr>chans := (chans w)(c := f (chans w c))\<rparr>"

definition reader_pool :: "'v world \<Rightarrow> nat \<Rightarrow> nat Actions" where
  "reader_pool w c = r_actions (rw_reader (chans w c))"

definition writer_pool :: "'v world \<Rightarrow> nat \<Rightarrow> nat Actions" where
  "writer_pool w c = w_actions (rw_writer (chans w c))"

definition set_reader_pool :: "nat \<Rightarrow> nat Actions \<Rightarrow> 'v world \<Rightarrow> 'v world" where
  "set_reader_pool c A w = upd_chan c (\<lambda>rw. rw\<lparr>rw_reader := (rw_reader rw)\<lparr>r_actions := A\<rparr>\<rparr>) w"

definition set_writer_pool :: "nat \<Rightarrow> nat Actions \<Rightarrow> 'v world \<Rightarrow> 'v world" where
  "set_writer_pool c A w = upd_chan c (\<lambda>rw. rw\<lparr>rw_writer := (rw_writer rw)\<lparr>w_actions := A\<rparr>\<rparr>) w"

text \<open>
  Settling a promise: \<open>resolve\<close> and \<open>reject\<close> act on a pending promise only.
  \<open>new Promise\<close> takes the next promise number.
\<close>

definition settle :: "nat \<Rightarrow> 'v settled \<Rightarrow> 'v world \<Rightarrow> 'v world" where
  "settle p x w = (if promises w p = None then w\<lparr>promises := (promises w)(p \<mapsto> x)\<rparr> else w)"

definition new_promise :: "'v world \<Rightarrow> nat \<times> 'v world" where
  "new_promise w = (next_promise w, w\<lparr>next_promise := next_promise w + 1\<rparr>)"

text \<open>
  \<open>signal?.addEventListener('abort', onAbort, { once: true })\<close> and
  \<open>signal?.removeEventListener('abort', onAbort)\<close>; the listener removed is the one
  closure of the call, found by its promise.
\<close>

definition addEventListener :: "nat option \<Rightarrow> listener \<Rightarrow> 'v world \<Rightarrow> 'v world" where
  "addEventListener s l w =
     (case s of
        None \<Rightarrow> w
      | Some n \<Rightarrow> w\<lparr>signals := (signals w)
          (n := (signals w n)\<lparr>sig_listeners := sig_listeners (signals w n) @ [l]\<rparr>)\<rparr>)"

definition removeEventListener :: "nat option \<Rightarrow> nat \<Rightarrow> 'v world \<Rightarrow> 'v world" where
  "removeEventListener s p w =
     (case s of
        None \<Rightarrow> w
      | Some n \<Rightarrow> w\<lparr>signals := (signals w)
          (n := (signals w n)\<lparr>sig_listeners :=
                  filter (\<lambda>l. listener_owner l \<noteq> p) (sig_listeners (signals w n))\<rparr>)\<rparr>)"

text \<open>\<open>signal?.aborted\<close> and \<open>signal?.reason\<close>.\<close>

definition signal_aborted :: "nat option \<Rightarrow> 'v world \<Rightarrow> bool" where
  "signal_aborted s w = (case s of None \<Rightarrow> False | Some n \<Rightarrow> aborted (signals w n))"

definition signal_reason :: "nat option \<Rightarrow> 'v world \<Rightarrow> 'v js_any" where
  "signal_reason s w = (case s of None \<Rightarrow> Value None | Some n \<Rightarrow> sig_reason (signals w n))"

section \<open>rw.ts: actions, readers and writers\<close>

text \<open>
  \<open>Reader.disconnect\<close>: \<open>this.actions.remove(action); Reader.list?.push(action)\<close>, for
  the reader of channel \<open>c\<close>. \<open>ReadAction.disconnect\<close> does it once, clearing the
  action's fields. Nothing in \<open>chan.ts\<close> or \<open>select.ts\<close> calls these methods.
\<close>

definition Reader_disconnect :: "nat \<Rightarrow> nat \<Rightarrow> 'v world \<Rightarrow> 'v world" where
  "Reader_disconnect c a w =
     (let w1 = set_reader_pool c (Actions_remove (Some a) (reader_pool w c)) w
      in case Reader_list w1 of
           None \<Rightarrow> w1
         | Some l \<Rightarrow> w1\<lparr>Reader_list := Some (snd (Ring_push (Some a) l))\<rparr>)"

definition ReadAction_disconnect :: "nat \<Rightarrow> 'v world \<Rightarrow> 'v world" where
  "ReadAction_disconnect a w =
     (case reader (racts w a) of
        None \<Rightarrow> w
      | Some c \<Rightarrow>
          Reader_disconnect c a
            (w\<lparr>racts := (racts w)(a := \<lparr>reader = None, callback = None\<rparr>)\<rparr>))"

definition Writer_disconnect :: "nat \<Rightarrow> nat \<Rightarrow> 'v world \<Rightarrow> 'v world" where
  "Writer_disconnect c a w =
     (let w1 = set_writer_pool c (Actions_remove (Some a) (writer_pool w c)) w
      in case Writer_list w1 of
           None \<Rightarrow> w1
         | Some l \<Rightarrow> w1\<lparr>Writer_list := Some (snd (Ring_push (Some a) l))\<rparr>)"

definition WirteAction_disconnect :: "nat \<Rightarrow> 'v world \<Rightarrow> 'v world" where
  "WirteAction_disconnect a w =
     (case writer (wacts w a) of
        None \<Rightarrow> w
      | Some c \<Rightarrow>
          Writer_disconnect c a
            (w\<lparr>wacts := (wacts w)(a := \<lparr>writer = None, wa_value = None, wa_callback = None\<rparr>)\<rparr>))"

fun conn_disconnect :: "conn \<Rightarrow> 'v world \<Rightarrow> 'v world" where
  "conn_disconnect (RConn a) w = ReadAction_disconnect a w"
| "conn_disconnect (WConn a) w = WirteAction_disconnect a w"

text \<open>
  \<open>conn.disconet()\<close> and \<open>action.disconet()\<close>, as \<open>select.ts\<close> and \<open>chan.ts\<close> write
  it: the object is a \<open>ReadAction\<close> or a \<open>WirteAction\<close> of \<open>rw.ts\<close>, its property
  \<open>disconet\<close> is \<open>undefined\<close>, and calling it throws a \<open>TypeError\<close>. Nothing is
  changed.
\<close>

definition conn_disconet :: "conn \<Rightarrow> 'v world \<Rightarrow> ('v, unit) outcome \<times> 'v world" where
  "conn_disconet cn w = (Throw TypeError, w)"

text \<open>
  \<open>select.ts\<close>: \<open>cleanup\<close> and the shared callback \<open>cb\<close> of a pending \<open>selectChan\<close>.
  They stand here because the actions below run them. \<open>disconet_each\<close> is the loop
  \<open>for (const conn of conns) conn.disconet()\<close>, which the first exception leaves.
\<close>

fun disconet_each :: "conn list \<Rightarrow> 'v world \<Rightarrow> ('v, unit) outcome \<times> 'v world" where
  "disconet_each [] w = (Return (), w)"
| "disconet_each (cn # cns) w =
     (case conn_disconet cn w of
        (Throw e, w1) \<Rightarrow> (Throw e, w1)
      | (Return u, w1) \<Rightarrow> disconet_each cns w1)"

definition select_cleanup :: "nat \<Rightarrow> bool \<Rightarrow> 'v world \<Rightarrow> ('v, unit) outcome \<times> 'v world" where
  "select_cleanup p was_aborted w =
     (let w1 = (if \<not> was_aborted then removeEventListener (env_signal (selects w p)) p w else w)
      in disconet_each (env_conns (selects w p)) w1)"

fun select_cb_run ::
    "'v select_cb \<Rightarrow> 'v chan_case \<Rightarrow> bool \<Rightarrow> 'v js_any \<Rightarrow> 'v world
      \<Rightarrow> ('v, unit) outcome \<times> 'v world" where
  "select_cb_run NoopCb c hasError rsn w = (Return (), w)"
| "select_cb_run (ThrowCb e) c hasError rsn w = (Throw e, w)"
| "select_cb_run (SelectCb p) c hasError rsn w =
     (case select_cleanup p False w of
        (Throw e, w1) \<Rightarrow> (Throw e, w1)
      | (Return u, w1) \<Rightarrow>
          (Return (),
           if hasError then
             (if env_silent (selects w p) then settle p (ResolvedAborted rsn) w1
              else settle p (Rejected rsn) w1)
           else settle p (ResolvedCase c) w1))"

text \<open>
  The read callbacks: the one of \<open>Chan.read\<close>, whose \<open>cleanup()\<close> only removes the
  abort listener, and the one of \<open>_ReadCase.invoke\<close>, which fills the case's slot and
  calls \<open>cb(this)\<close>.
\<close>

fun rcb_run :: "'v rcb \<Rightarrow> 'v IteratorResult \<Rightarrow> 'v world \<Rightarrow> ('v, unit) outcome \<times> 'v world" where
  "rcb_run (ChanReadCb p s) val w =
     (Return (),
      settle p
        (ResolvedRead
           (if ir_done val
            then \<lparr>rv_closed = Some True, rv_reason = Value None, rv_ok = False, rv_value = None\<rparr>
            else \<lparr>rv_closed = Some False, rv_reason = Value None, rv_ok = True,
                  rv_value = ir_value val\<rparr>))
        (removeEventListener s p w))"
| "rcb_run (ReadCaseCb k c cb) val w =
     select_cb_run cb (ReadCase k c) False (Value None)
       (w\<lparr>rcase_value := (rcase_value w)
           (k := Some
              (if ir_done val
               then \<lparr>rv_closed = Some True, rv_reason = Value None, rv_ok = True,
                     rv_value = ir_value val\<rparr>
               else \<lparr>rv_closed = Some False, rv_reason = Value None, rv_ok = True,
                     rv_value = ir_value val\<rparr>))\<rparr>)"

text \<open>
  The write callbacks, called as \<open>cb(true)\<close> (\<open>ok = True\<close>) or as
  \<open>cb(undefined, reason)\<close> (\<open>ok = False\<close>).
\<close>

fun wcb_run :: "'v wcb \<Rightarrow> bool \<Rightarrow> 'v js_any \<Rightarrow> 'v world \<Rightarrow> ('v, unit) outcome \<times> 'v world" where
  "wcb_run (ChanWriteCb p s slnt) ok rsn w =
     (let w1 = removeEventListener s p w
      in (Return (),
          if \<not> ok then
            (if slnt
             then settle p (ResolvedWrite \<lparr>wv_ok = Some False, wv_error = True, wv_reason = rsn\<rparr>) w1
             else settle p (Rejected rsn) w1)
          else settle p
                 (ResolvedWrite \<lparr>wv_ok = Some True, wv_error = False, wv_reason = Value None\<rparr>) w1))"
| "wcb_run (WriteCaseCb k c v cb) ok rsn w =
     (if \<not> ok then
        select_cb_run cb (WriteCase k c v) True rsn
          (w\<lparr>wcase_value := (wcase_value w)
              (k := Some \<lparr>wv_ok = Some False, wv_error = True, wv_reason = rsn\<rparr>)\<rparr>)
      else
        select_cb_run cb (WriteCase k c v) False (Value None)
          (w\<lparr>wcase_value := (wcase_value w)
              (k := Some \<lparr>wv_ok = Some True, wv_error = False, wv_reason = Value None\<rparr>)\<rparr>))"

text \<open>The methods of the action objects that run the callback, if there is one.\<close>

definition ReadAction_invoke ::
    "nat \<Rightarrow> 'v IteratorResult \<Rightarrow> 'v world \<Rightarrow> ('v, unit) outcome \<times> 'v world" where
  "ReadAction_invoke a val w =
     (case callback (racts w a) of None \<Rightarrow> (Return (), w) | Some cb \<Rightarrow> rcb_run cb val w)"

definition WirteAction_invoke :: "nat \<Rightarrow> 'v world \<Rightarrow> ('v, unit) outcome \<times> 'v world" where
  "WirteAction_invoke a w =
     (case wa_callback (wacts w a) of
        None \<Rightarrow> (Return (), w)
      | Some cb \<Rightarrow> wcb_run cb True (Value None) w)"

definition WirteAction_close :: "nat \<Rightarrow> 'v js_any \<Rightarrow> 'v world \<Rightarrow> ('v, unit) outcome \<times> 'v world" where
  "WirteAction_close a rsn w =
     (case wa_callback (wacts w a) of
        None \<Rightarrow> (Return (), w)
      | Some cb \<Rightarrow> wcb_run cb False rsn w)"

text \<open>
  \<open>new ReadAction(this, callback)\<close> takes the next object number. \<open>Reader.create\<close>
  first looks in the static free list, which it makes on its first call.
\<close>

definition new_ReadAction :: "nat \<Rightarrow> 'v rcb \<Rightarrow> 'v world \<Rightarrow> nat \<times> 'v world" where
  "new_ReadAction c cb w =
     (next_ract w,
      w\<lparr>racts := (racts w)(next_ract w := \<lparr>reader = Some c, callback = Some cb\<rparr>),
        next_ract := next_ract w + 1\<rparr>)"

definition Reader_create :: "nat \<Rightarrow> 'v rcb \<Rightarrow> 'v world \<Rightarrow> nat \<times> 'v world" where
  "Reader_create c cb w =
     (case Reader_list w of
        Some l \<Rightarrow>
          (let (action, l') = Ring_pop_true l;
               w1 = w\<lparr>Reader_list := Some l'\<rparr>
           in case action of
                Some a \<Rightarrow> (a, w1\<lparr>racts := (racts w1)(a := \<lparr>reader = Some c, callback = Some cb\<rparr>)\<rparr>)
              | None \<Rightarrow> new_ReadAction c cb w1)
      | None \<Rightarrow> new_ReadAction c cb (w\<lparr>Reader_list := Some (Ring_new 128)\<rparr>))"

definition Reader_isEmpty :: "'v world \<Rightarrow> nat \<Rightarrow> bool" where
  "Reader_isEmpty w c \<longleftrightarrow> Actions_length (reader_pool w c) = 0"

text \<open>
  \<open>Math.floor(Math.random() * n)\<close> is any of the indices \<open>0 .. n - 1\<close>. A draw of the
  random source is a natural number \<open>d\<close> given to the operation, and the index is
  \<open>d mod n\<close>, which ranges over exactly those indices.
\<close>

definition Reader_invoke :: "nat \<Rightarrow> nat \<Rightarrow> 'v IteratorResult \<Rightarrow> 'v world \<Rightarrow> ('v, unit) outcome \<times> 'v world" where
  "Reader_invoke d c val w =
     (let A = reader_pool w c
      in if Actions_length A = 0 then (Throw (ChannelError ''reader empty''), w)
         else
           let (p, A') = (if Actions_length A = 1 then Actions_pop A
                          else Actions_removeBy (d mod Actions_length A) A);
               w1 = set_reader_pool c A' w
           in case p of
                None \<Rightarrow> (Throw TypeError, w1)
              | Some a \<Rightarrow> ReadAction_invoke a val w1)"

text \<open>
  \<open>for (const action of actions) action.invoke(noResult)\<close>: the iterator of \<open>Actions\<close>
  reads the array at index \<open>i\<close> while \<open>i < actions.length\<close>, and the callbacks it runs
  may remove elements of that same array meanwhile. A callback that throws ends the
  loop, and the exception leaves \<open>close\<close> before \<open>actions.clear()\<close>.
\<close>

partial_function (option) Reader_close_loop ::
    "nat \<Rightarrow> nat \<Rightarrow> 'v world \<Rightarrow> (('v, unit) outcome \<times> 'v world) option" where
  "Reader_close_loop c i w =
     (if i < length (actions (reader_pool w c)) then
        (case actions (reader_pool w c) ! i of
           None \<Rightarrow> Some (Throw TypeError, w)
         | Some a \<Rightarrow>
             (case ReadAction_invoke a noResult w of
                (Throw e, w1) \<Rightarrow> Some (Throw e, w1)
              | (Return u, w1) \<Rightarrow> Reader_close_loop c (i + 1) w1))
      else Some (Return (), w))"

definition Reader_close :: "nat \<Rightarrow> 'v world \<Rightarrow> (('v, unit) outcome \<times> 'v world) option" where
  "Reader_close c w =
     (if r_closed (rw_reader (chans w c)) then Some (Return (), w)
      else
        let w1 = upd_chan c (\<lambda>rw. rw\<lparr>rw_reader := (rw_reader rw)\<lparr>r_closed := True\<rparr>\<rparr>) w
        in if Actions_length (reader_pool w1 c) \<noteq> 0 then
             (case Reader_close_loop c 0 w1 of
                None \<Rightarrow> None
              | Some (Throw e, w2) \<Rightarrow> Some (Throw e, w2)
              | Some (Return u, w2) \<Rightarrow>
                  Some (Return (), set_reader_pool c (Actions_clear (reader_pool w2 c)) w2))
           else Some (Return (), w1))"

definition Reader_connect :: "nat \<Rightarrow> 'v rcb \<Rightarrow> 'v world \<Rightarrow> nat \<times> 'v world" where
  "Reader_connect c cb w =
     (let (a, w1) = Reader_create c cb w
      in (a, set_reader_pool c (Actions_push (Some a) (reader_pool w1 c)) w1))"

text \<open>
  The writer side. \<open>Writer.create\<close> refits an action taken from the free list and
  then returns a new one all the same.
\<close>

definition new_WirteAction :: "nat \<Rightarrow> 'v option \<Rightarrow> 'v wcb \<Rightarrow> 'v world \<Rightarrow> nat \<times> 'v world" where
  "new_WirteAction c v cb w =
     (next_wact w,
      w\<lparr>wacts := (wacts w)
           (next_wact w := \<lparr>writer = Some c, wa_value = v, wa_callback = Some cb\<rparr>),
        next_wact := next_wact w + 1\<rparr>)"

definition Writer_create :: "nat \<Rightarrow> 'v option \<Rightarrow> 'v wcb \<Rightarrow> 'v world \<Rightarrow> nat \<times> 'v world" where
  "Writer_create c v cb w =
     (case Writer_list w of
        Some l \<Rightarrow>
          (let (action, l') = Ring_pop_true l;
               w1 = w\<lparr>Writer_list := Some l'\<rparr>;
               w2 = (case action of
                       Some a \<Rightarrow> w1\<lparr>wacts := (wacts w1)
                          (a := \<lparr>writer = Some c, wa_value = v, wa_callback = Some cb\<rparr>)\<rparr>
                     | None \<Rightarrow> w1)
           in new_WirteAction c v cb w2)
      | None \<Rightarrow> new_WirteAction c v cb (w\<lparr>Writer_list := Some (Ring_new 128)\<rparr>))"

definition Writer_isEmpty :: "'v world \<Rightarrow> nat \<Rightarrow> bool" where
  "Writer_isEmpty w c \<longleftrightarrow> Actions_length (writer_pool w c) = 0"

definition Writer_invoke :: "nat \<Rightarrow> nat \<Rightarrow> 'v world \<Rightarrow> ('v, 'v option) outcome \<times> 'v world" where
  "Writer_invoke d c w =
     (let A = writer_pool w c
      in if Actions_length A = 0 then (Throw (ChannelError ''writer empty''), w)
         else
           let (p, A') = (if Actions_length A = 1 then Actions_pop A
                          else Actions_removeBy (d mod Actions_length A) A);
               w1 = set_writer_pool c A' w
           in case p of
                None \<Rightarrow> (Throw TypeError, w1)
              | Some a \<Rightarrow>
                  (case WirteAction_invoke a w1 of
                     (Throw e, w2) \<Rightarrow> (Throw e, w2)
                   | (Return u, w2) \<Rightarrow> (Return (wa_value (wacts w1 a)), w2)))"

partial_function (option) Writer_close_loop ::
    "nat \<Rightarrow> 'v js_any \<Rightarrow> nat \<Rightarrow> 'v world \<Rightarrow> (('v, unit) outcome \<times> 'v world) option" where
  "Writer_close_loop c err i w =
     (if i < length (actions (writer_pool w c)) then
        (case actions (writer_pool w c) ! i of
           None \<Rightarrow> Some (Throw TypeError, w)
         | Some a \<Rightarrow>
             (case WirteAction_close a err w of
                (Throw e, w1) \<Rightarrow> Some (Throw e, w1)
              | (Return u, w1) \<Rightarrow> Writer_close_loop c err (i + 1) w1))
      else Some (Return (), w))"

definition Writer_close :: "nat \<Rightarrow> 'v world \<Rightarrow> (('v, unit) outcome \<times> 'v world) option" where
  "Writer_close c w =
     (if w_closed (rw_writer (chans w c)) then Some (Return (), w)
      else
        let w1 = upd_chan c (\<lambda>rw. rw\<lparr>rw_writer := (rw_writer rw)\<lparr>w_closed := True\<rparr>\<rparr>) w
        in if Actions_length (writer_pool w1 c) \<noteq> 0 then
             (case Writer_close_loop c (ChannelError ''channel already closed'') 0 w1 of
                None \<Rightarrow> None
              | Some (Throw e, w2) \<Rightarrow> Some (Throw e, w2)
              | Some (Return u, w2) \<Rightarrow>
                  Some (Return (), set_writer_pool c (Actions_clear (writer_pool w2 c)) w2))
           else Some (Return (), w1))"

definition Writer_connect :: "nat \<Rightarrow> 'v option \<Rightarrow> 'v wcb \<Rightarrow> 'v world \<Rightarrow> nat \<times> 'v world" where
  "Writer_connect c v cb w =
     (let (a, w1) = Writer_create c v cb w
      in (a, set_writer_pool c (Actions_push (Some a) (writer_pool w1 c)) w1))"

section \<open>rw.ts: the engine\<close>

text \<open>
  The constructor \<open>new RW(buf)\<close>, for an integral \<open>buf\<close>. The limit that the
  runtime puts on the length of an array is not modelled.
\<close>

definition RW_new :: "int \<Rightarrow> 'v RW" where
  "RW_new buf =
     \<lparr>list = (if buf > 0 then Some (Ring_new (nat buf)) else None),
      rw_reader = \<lparr>r_closed = False, r_actions = Actions_new\<rparr>,
      rw_writer = \<lparr>w_closed = False, w_actions = Actions_new\<rparr>,
      isClosed = False,
      rw_completer = None\<rparr>"

text \<open>\<open>list.push(v)\<close> on the ring object of channel \<open>c\<close>.\<close>

definition list_push :: "nat \<Rightarrow> 'v option \<Rightarrow> 'v world \<Rightarrow> 'v world" where
  "list_push c v w =
     upd_chan c (\<lambda>rw. case list rw of
                         None \<Rightarrow> rw
                       | Some l \<Rightarrow> rw\<lparr>list := Some (snd (Ring_push v l))\<rparr>) w"

text \<open>
  \<open>tryRead\<close> returns \<open>undefined\<close> (\<open>None\<close>) when closed, \<open>noResult\<close> when nothing can
  be read, and an iterator result with the value otherwise. \<open>RW_tryRead_direct\<close> is
  its part after the cache: \<open>closed?\<close> and \<open>read from writer\<close>.
\<close>

definition RW_tryRead_direct ::
    "nat \<Rightarrow> nat \<Rightarrow> 'v world \<Rightarrow> ('v, 'v IteratorResult option) outcome \<times> 'v world" where
  "RW_tryRead_direct d c w =
     (if isClosed (chans w c) then (Return None, w)
      else if Writer_isEmpty w c then (Return (Some noResult), w)
      else
        (case Writer_invoke d c w of
           (Throw e, w2) \<Rightarrow> (Throw e, w2)
         | (Return v', w2) \<Rightarrow> (Return (Some \<lparr>ir_done = False, ir_value = v'\<rparr>), w2)))"

definition RW_tryRead ::
    "nat \<Rightarrow> nat \<Rightarrow> 'v world \<Rightarrow> ('v, 'v IteratorResult option) outcome \<times> 'v world" where
  "RW_tryRead d c w =
     (case list (chans w c) of
        Some l \<Rightarrow>
          (let (result, l') = Ring_pop l;
               w1 = upd_chan c (\<lambda>rw. rw\<lparr>list := Some l'\<rparr>) w
           in if \<not> ir_done result then
                (if \<not> Writer_isEmpty w1 c then
                   (case Writer_invoke d c w1 of
                      (Throw e, w2) \<Rightarrow> (Throw e, w2)
                    | (Return v', w2) \<Rightarrow> (Return (Some result), list_push c v' w2))
                 else (Return (Some result), w1))
              else RW_tryRead_direct d c w1)
      | None \<Rightarrow> RW_tryRead_direct d c w)"

definition RW_read :: "nat \<Rightarrow> 'v rcb \<Rightarrow> 'v world \<Rightarrow> nat \<times> 'v world" where
  "RW_read c cb w = Reader_connect c cb w"

text \<open>\<open>tryWrite\<close> returns \<open>undefined\<close> (\<open>None\<close>) when closed, else whether it wrote.\<close>

definition RW_tryWrite ::
    "nat \<Rightarrow> nat \<Rightarrow> 'v option \<Rightarrow> 'v world \<Rightarrow> ('v, bool option) outcome \<times> 'v world" where
  "RW_tryWrite d c val w =
     (if isClosed (chans w c) then (Return None, w)
      else if Reader_isEmpty w c then
        (case list (chans w c) of
           None \<Rightarrow> (Return (Some False), w)
         | Some l \<Rightarrow>
             (let (b, l') = Ring_push val l
              in (Return (Some b), upd_chan c (\<lambda>rw. rw\<lparr>list := Some l'\<rparr>) w)))
      else
        (case Reader_invoke d c \<lparr>ir_done = False, ir_value = val\<rparr> w of
           (Throw e, w1) \<Rightarrow> (Throw e, w1)
         | (Return u, w1) \<Rightarrow> (Return (Some True), w1)))"

definition RW_write :: "nat \<Rightarrow> 'v option \<Rightarrow> 'v wcb \<Rightarrow> 'v world \<Rightarrow> nat \<times> 'v world" where
  "RW_write c val cb w = Writer_connect c val cb w"

text \<open>
  \<open>close\<close>. \<open>closed.resolve(null)\<close> settles the promise of the completer that
  \<open>wait\<close> made.
\<close>

definition RW_close :: "nat \<Rightarrow> 'v world \<Rightarrow> (('v, bool) outcome \<times> 'v world) option" where
  "RW_close c w =
     (if isClosed (chans w c) then Some (Return False, w)
      else
        (case Writer_close c (upd_chan c (\<lambda>rw. rw\<lparr>isClosed := True\<rparr>) w) of
           None \<Rightarrow> None
         | Some (Throw e, w2) \<Rightarrow> Some (Throw e, w2)
         | Some (Return u, w2) \<Rightarrow>
             (case Reader_close c w2 of
                None \<Rightarrow> None
              | Some (Throw e, w3) \<Rightarrow> Some (Throw e, w3)
              | Some (Return u', w3) \<Rightarrow>
                  (case rw_completer (chans w3 c) of
                     None \<Rightarrow> Some (Return True, w3)
                   | Some p \<Rightarrow>
                       Some (Return True,
                             settle p ResolvedNull
                               (upd_chan c (\<lambda>rw. rw\<lparr>rw_completer := None\<rparr>) w3))))))"

definition RW_wait :: "nat \<Rightarrow> 'v world \<Rightarrow> nat option \<times> 'v world" where
  "RW_wait c w =
     (if isClosed (chans w c) then (None, w)
      else
        (case rw_completer (chans w c) of
           Some p \<Rightarrow> (Some p, w)
         | None \<Rightarrow>
             (let (p, w1) = new_promise w
              in (Some p, upd_chan c (\<lambda>rw. rw\<lparr>rw_completer := Some p\<rparr>) w1))))"

definition RW_length :: "'v RW \<Rightarrow> nat" where
  "RW_length rw = (case list rw of None \<Rightarrow> 0 | Some l \<Rightarrow> Ring_length l)"

definition RW_capacity :: "'v RW \<Rightarrow> nat" where
  "RW_capacity rw = (case list rw of None \<Rightarrow> 0 | Some l \<Rightarrow> Ring_capacity l)"

section \<open>chan.ts: the channel\<close>

text \<open>
  A channel is its engine: \<open>new Chan(buf)\<close> is \<open>new RW(Math.floor(buf))\<close>, and channel
  \<open>c\<close> of a world is \<open>chans w c\<close>. A call that may return a promise returns \<open>Now\<close> a
  value or \<open>Later\<close> a promise.
\<close>

datatype 'r maybe_promise = Now 'r | Later nat

definition Chan_new :: "int \<Rightarrow> 'v RW" where
  "Chan_new buf = RW_new buf"

definition Chan_tryRead ::
    "nat \<Rightarrow> Options \<Rightarrow> nat \<Rightarrow> 'v world \<Rightarrow> ('v, 'v ReadValue) outcome \<times> 'v world" where
  "Chan_tryRead c opts d w =
     (if signal_aborted (signal opts) w then
        (if silent opts then
           (Return \<lparr>rv_closed = None, rv_reason = signal_reason (signal opts) w,
                    rv_ok = False, rv_value = None\<rparr>, w)
         else (Throw (signal_reason (signal opts) w), w))
      else
        (case RW_tryRead d c w of
           (Throw e, w1) \<Rightarrow> (Throw e, w1)
         | (Return None, w1) \<Rightarrow>
             (Return \<lparr>rv_closed = Some True, rv_reason = Value None,
                      rv_ok = False, rv_value = None\<rparr>, w1)
         | (Return (Some val), w1) \<Rightarrow>
             (Return (if ir_done val
                      then \<lparr>rv_closed = Some False, rv_reason = Value None,
                            rv_ok = False, rv_value = None\<rparr>
                      else \<lparr>rv_closed = Some False, rv_reason = Value None,
                            rv_ok = True, rv_value = ir_value val\<rparr>), w1)))"

definition Chan_read ::
    "nat \<Rightarrow> Options \<Rightarrow> nat \<Rightarrow> 'v world \<Rightarrow> ('v, 'v ReadValue maybe_promise) outcome \<times> 'v world" where
  "Chan_read c opts d w =
     (case Chan_tryRead c opts d w of
        (Throw e, w1) \<Rightarrow> (Throw e, w1)
      | (Return val, w1) \<Rightarrow>
          (if rv_closed val \<noteq> Some False \<or> rv_ok val then (Return (Now val), w1)
           else
             let (p, w2) = new_promise w1;
                 (action, w3) = RW_read c (ChanReadCb p (signal opts)) w2
             in (Return (Later p),
                 addEventListener (signal opts) (ReadOnAbort p action (silent opts)) w3)))"

definition Chan_tryWrite ::
    "nat \<Rightarrow> 'v option \<Rightarrow> Options \<Rightarrow> nat \<Rightarrow> 'v world \<Rightarrow> ('v, 'v WriteValue) outcome \<times> 'v world" where
  "Chan_tryWrite c val opts d w =
     (if signal_aborted (signal opts) w then
        (if silent opts then
           (Return \<lparr>wv_ok = Some False, wv_error = True,
                    wv_reason = signal_reason (signal opts) w\<rparr>, w)
         else (Throw (signal_reason (signal opts) w), w))
      else
        (case RW_tryWrite d c val w of
           (Throw e, w1) \<Rightarrow> (Throw e, w1)
         | (Return None, w1) \<Rightarrow>
             (if silent opts then
                (Return \<lparr>wv_ok = Some False, wv_error = True,
                         wv_reason = ChannelError ''channel already closed''\<rparr>, w1)
              else (Throw (ChannelError ''channel already closed''), w1))
         | (Return (Some result), w1) \<Rightarrow>
             (if result then
                (Return \<lparr>wv_ok = Some True, wv_error = False, wv_reason = Value None\<rparr>, w1)
              else
                (Return \<lparr>wv_ok = Some False, wv_error = False, wv_reason = Value None\<rparr>, w1))))"

definition Chan_write ::
    "nat \<Rightarrow> 'v option \<Rightarrow> Options \<Rightarrow> nat \<Rightarrow> 'v world
      \<Rightarrow> ('v, 'v WriteValue maybe_promise) outcome \<times> 'v world" where
  "Chan_write c val opts d w =
     (case Chan_tryWrite c val opts d w of
        (Throw e, w1) \<Rightarrow> (Throw e, w1)
      | (Return v, w1) \<Rightarrow>
          (if wv_ok v = Some True \<or> wv_error v then (Return (Now v), w1)
           else
             let (p, w2) = new_promise w1;
                 (action, w3) = RW_write c val (ChanWriteCb p (signal opts) (silent opts)) w2
             in (Return (Later p),
                 addEventListener (signal opts) (WriteOnAbort p action (silent opts)) w3)))"

definition Chan_close :: "nat \<Rightarrow> 'v world \<Rightarrow> (('v, bool) outcome \<times> 'v world) option" where
  "Chan_close c w = RW_close c w"

definition Chan_wait :: "nat \<Rightarrow> 'v world \<Rightarrow> nat option \<times> 'v world" where
  "Chan_wait c w = RW_wait c w"

definition Chan_isClosed :: "'v world \<Rightarrow> nat \<Rightarrow> bool" where
  "Chan_isClosed w c = isClosed (chans w c)"

definition Chan_length :: "'v world \<Rightarrow> nat \<Rightarrow> nat" where
  "Chan_length w c = RW_length (chans w c)"

definition Chan_capacity :: "'v world \<Rightarrow> nat \<Rightarrow> nat" where
  "Chan_capacity w c = RW_capacity (chans w c)"

text \<open>
  The asynchronous iterator of a channel, driven as \<open>for await\<close> drives it: after each
  \<open>yield\<close> the generator is resumed. One pass through the body of \<open>while (true)\<close>
  gives the values it yielded and how it left: by \<open>break\<close>, by reaching the end of the
  body, by \<open>throw\<close>, or suspended at \<open>await\<close> on a promise that is still pending.
\<close>

datatype 'v loop_exit = Break | Continue | Raise "'v js_any" | Suspend nat

datatype 'v iteration_end = Completed | Thrown "'v js_any" | Suspended nat

definition asyncIterator_body ::
    "nat \<Rightarrow> nat \<Rightarrow> 'v world \<Rightarrow> 'v option list \<times> 'v loop_exit \<times> 'v world" where
  "asyncIterator_body c d w =
     (case Chan_read c no_opts d w of
        (Throw e, w1) \<Rightarrow> ([], Raise e, w1)
      | (Return (Later p), w1) \<Rightarrow> ([], Suspend p, w1)
      | (Return (Now rv), w1) \<Rightarrow>
          (if rv_closed rv = Some True then ([], Break, w1)
           else ((if rv_ok rv then [rv_value rv] else []), Raise (rv_reason rv), w1)))"

partial_function (option) asyncIterator ::
    "nat \<Rightarrow> nat \<Rightarrow> 'v option list \<Rightarrow> 'v world
      \<Rightarrow> ('v option list \<times> 'v iteration_end \<times> 'v world) option" where
  "asyncIterator c d acc w =
     (case asyncIterator_body c d w of
        (ys, Continue, w1) \<Rightarrow> asyncIterator c d (acc @ ys) w1
      | (ys, Break, w1) \<Rightarrow> Some (acc @ ys, Completed, w1)
      | (ys, Raise e, w1) \<Rightarrow> Some (acc @ ys, Thrown e, w1)
      | (ys, Suspend p, w1) \<Rightarrow> Some (acc @ ys, Suspended p, w1))"

section \<open>chan.ts: the case objects\<close>

text \<open>
  \<open>readCase()\<close> and \<open>writeCase(val)\<close> make a new object each time; \<open>k\<close> is the new
  object's identity.
\<close>

definition Chan_readCase :: "nat \<Rightarrow> nat \<Rightarrow> 'v chan_case" where
  "Chan_readCase k c = ReadCase k c"

definition Chan_writeCase :: "nat \<Rightarrow> nat \<Rightarrow> 'v option \<Rightarrow> 'v chan_case" where
  "Chan_writeCase k c val = WriteCase k c val"

fun Case_reset :: "'v chan_case \<Rightarrow> 'v world \<Rightarrow> 'v world" where
  "Case_reset (ReadCase k c) w = w\<lparr>rcase_value := (rcase_value w)(k := None)\<rparr>"
| "Case_reset (WriteCase k c v) w = w\<lparr>wcase_value := (wcase_value w)(k := None)\<rparr>"

text \<open>The accessors \<open>read()\<close> of a read case and \<open>write()\<close> of a write case.\<close>

definition ReadCase_read :: "nat \<Rightarrow> 'v world \<Rightarrow> 'v ReadValue option" where
  "ReadCase_read k w = rcase_value w k"

definition WriteCase_write :: "nat \<Rightarrow> 'v world \<Rightarrow> 'v WriteValue option" where
  "WriteCase_write k w = wcase_value w k"

fun Case_tryInvoke ::
    "'v chan_case \<Rightarrow> bool \<Rightarrow> nat \<Rightarrow> 'v world \<Rightarrow> ('v, bool) outcome \<times> 'v world" where
  "Case_tryInvoke (ReadCase k c) slnt d w =
     (case RW_tryRead d c w of
        (Throw e, w1) \<Rightarrow> (Throw e, w1)
      | (Return None, w1) \<Rightarrow>
          (Return True,
           w1\<lparr>rcase_value := (rcase_value w1)
                (k := Some \<lparr>rv_closed = Some True, rv_reason = Value None,
                            rv_ok = False, rv_value = None\<rparr>)\<rparr>)
      | (Return (Some val), w1) \<Rightarrow>
          (if ir_done val then (Return False, w1)
           else
             (Return True,
              w1\<lparr>rcase_value := (rcase_value w1)
                   (k := Some \<lparr>rv_closed = Some False, rv_reason = Value None,
                               rv_ok = True, rv_value = ir_value val\<rparr>)\<rparr>)))"
| "Case_tryInvoke (WriteCase k c v) slnt d w =
     (case Chan_tryWrite c v \<lparr>signal = None, silent = slnt\<rparr> d w of
        (Throw e, w1) \<Rightarrow> (Throw e, w1)
      | (Return val, w1) \<Rightarrow>
          (if wv_ok val = None then
             (Return True,
              w1\<lparr>wcase_value := (wcase_value w1)
                   (k := Some \<lparr>wv_ok = Some False, wv_error = True,
                               wv_reason = wv_reason val\<rparr>)\<rparr>)
           else if wv_ok val = Some True then
             (Return True,
              w1\<lparr>wcase_value := (wcase_value w1)
                   (k := Some \<lparr>wv_ok = Some True, wv_error = False,
                               wv_reason = Value None\<rparr>)\<rparr>)
           else (Return False, w1)))"

fun Case_invoke :: "'v chan_case \<Rightarrow> 'v select_cb \<Rightarrow> 'v world \<Rightarrow> conn \<times> 'v world" where
  "Case_invoke (ReadCase k c) cb w =
     (let (a, w1) = RW_read c (ReadCaseCb k c cb) w in (RConn a, w1))"
| "Case_invoke (WriteCase k c v) cb w =
     (let (a, w1) = RW_write c v (WriteCaseCb k c v cb) w in (WConn a, w1))"

section \<open>select.ts\<close>

record 'v SelectOptions =
  sel_default :: bool
  sel_silent :: bool
  sel_signal :: "nat option"
  sel_chans :: "'v chan_case option list option"

text \<open>
  What \<open>selectChan\<close> returns: a case, \<open>null\<close>, \<open>{ reason }\<close>, a new promise, or the
  shared \<open>neverPromise\<close>.
\<close>

datatype 'v select_result =
    SelCase "'v chan_case"
  | SelNull
  | SelAborted "'v js_any"
  | SelPromise nat
  | SelNever

text \<open>
  \<open>shuffle(arrs, c)\<close> on the array \<open>arr\<close>; the draw of the pass that starts with \<open>c\<close> is \<open>rnd c\<close>. The
  draws of the later \<open>tryInvoke\<close> calls are \<open>rnd\<close> at the indices from
  \<open>length chans\<close> on.
\<close>

fun shuffle :: "(nat \<Rightarrow> nat) \<Rightarrow> 'a list \<Rightarrow> nat \<Rightarrow> 'a list" where
  "shuffle rnd arr 0 = arr"
| "shuffle rnd arr (Suc c) =
     (let r = rnd (Suc c) mod Suc c
      in shuffle rnd ((arr[c := arr ! r])[r := arr ! c]) c)"

fun try_all ::
    "'v chan_case list \<Rightarrow> bool \<Rightarrow> (nat \<Rightarrow> nat) \<Rightarrow> nat \<Rightarrow> 'v world
      \<Rightarrow> ('v, 'v chan_case option) outcome \<times> 'v world" where
  "try_all [] slnt rnd i w = (Return None, w)"
| "try_all (ch # chs) slnt rnd i w =
     (case Case_tryInvoke ch slnt (rnd i) w of
        (Throw e, w1) \<Rightarrow> (Throw e, w1)
      | (Return True, w1) \<Rightarrow> (Return (Some ch), w1)
      | (Return False, w1) \<Rightarrow> try_all chs slnt rnd (i + 1) w1)"

fun arm_all :: "'v select_cb \<Rightarrow> 'v chan_case list \<Rightarrow> 'v world \<Rightarrow> conn list \<times> 'v world" where
  "arm_all cb [] w = ([], w)"
| "arm_all cb (ch # chs) w =
     (let (cn, w1) = Case_invoke ch cb w;
          (cns, w2) = arm_all cb chs w1
      in (cn # cns, w2))"

definition selectChan ::
    "'v SelectOptions \<Rightarrow> (nat \<Rightarrow> nat) \<Rightarrow> 'v world \<Rightarrow> ('v, 'v select_result) outcome \<times> 'v world" where
  "selectChan opts rnd w =
     (if signal_aborted (sel_signal opts) w then
        (if sel_silent opts then (Return (SelAborted (signal_reason (sel_signal opts) w)), w)
         else (Throw (signal_reason (sel_signal opts) w), w))
      else
        let cases = (case sel_chans opts of None \<Rightarrow> [] | Some cs \<Rightarrow> List.map_filter id cs)
        in if cases = [] then
             (if sel_default opts then (Return SelNull, w)
              else
                (case sel_signal opts of
                   Some s \<Rightarrow>
                     (let (p, w1) = new_promise w
                      in (Return (SelPromise p),
                          addEventListener (Some s) (EmptySelectOnAbort p (sel_silent opts)) w1))
                 | None \<Rightarrow> (Return SelNever, w)))
           else
             let w1 = fold Case_reset cases w;
                 shuffled = shuffle rnd cases (length cases)
             in case try_all shuffled (sel_silent opts) rnd (length cases) w1 of
                  (Throw e, w2) \<Rightarrow> (Throw e, w2)
                | (Return (Some ch), w2) \<Rightarrow> (Return (SelCase ch), w2)
                | (Return None, w2) \<Rightarrow>
                    (if sel_default opts then (Return SelNull, w2)
                     else
                       let (p, w3) = new_promise w2;
                           (cns, w4) = arm_all (SelectCb p) shuffled w3;
                           w5 = w4\<lparr>selects := (selects w4)
                                  (p := \<lparr>env_conns = cns, env_silent = sel_silent opts,
                                         env_signal = sel_signal opts\<rparr>)\<rparr>
                       in (Return (SelPromise p),
                           addEventListener (sel_signal opts) (SelectOnAbort p) w5)))"

section \<open>The abort listeners\<close>

text \<open>
  The bodies of the \<open>onAbort\<close> closures of \<open>Chan.read\<close>, \<open>Chan.write\<close> and
  \<open>selectChan\<close>, for signal \<open>s\<close>. Those of \<open>Chan.read\<close> and \<open>Chan.write\<close> begin with
  \<open>cleanup(true)\<close>, which is \<open>action.disconet()\<close>; the one of a pending \<open>selectChan\<close>
  begins with its \<open>cleanup(true)\<close>. What follows runs only if that returned.
\<close>

fun run_listener :: "nat \<Rightarrow> listener \<Rightarrow> 'v world \<Rightarrow> ('v, unit) outcome \<times> 'v world" where
  "run_listener s (ReadOnAbort p a slnt) w =
     (case conn_disconet (RConn a) w of
        (Throw e, w1) \<Rightarrow> (Throw e, w1)
      | (Return u, w1) \<Rightarrow>
          (Return (),
           if slnt then
             settle p (ResolvedRead \<lparr>rv_closed = None, rv_reason = sig_reason (signals w1 s),
                                     rv_ok = False, rv_value = None\<rparr>) w1
           else settle p (Rejected (sig_reason (signals w1 s))) w1))"
| "run_listener s (WriteOnAbort p a slnt) w =
     (case conn_disconet (WConn a) w of
        (Throw e, w1) \<Rightarrow> (Throw e, w1)
      | (Return u, w1) \<Rightarrow>
          (Return (),
           if slnt then
             settle p (ResolvedWrite \<lparr>wv_ok = Some False, wv_error = True,
                                      wv_reason = sig_reason (signals w1 s)\<rparr>) w1
           else settle p (Rejected (sig_reason (signals w1 s))) w1))"
| "run_listener s (SelectOnAbort p) w =
     (case select_cleanup p True w of
        (Throw e, w1) \<Rightarrow> (Throw e, w1)
      | (Return u, w1) \<Rightarrow>
          (Return (),
           if env_silent (selects w p) then settle p (ResolvedAborted (sig_reason (signals w1 s))) w1
           else settle p (Rejected (sig_reason (signals w1 s))) w1))"
| "run_listener s (EmptySelectOnAbort p slnt) w =
     (Return (),
      if slnt then settle p (ResolvedAborted (sig_reason (signals w s))) w
      else settle p (Rejected (sig_reason (signals w s))) w)"

text \<open>
  The host's \<open>AbortController.abort(reason)\<close>: it marks a signal that is not yet
  aborted and calls its listeners in turn, each registered with \<open>once: true\<close>. An
  exception that a listener throws is reported by the host and does not reach the
  caller of \<open>abort\<close>; the next listener is called all the same.
\<close>

definition abort :: "nat \<Rightarrow> 'v js_any \<Rightarrow> 'v world \<Rightarrow> 'v world" where
  "abort s rsn w =
     (if aborted (signals w s) then w
      else
        fold (\<lambda>l w1. snd (run_listener s l w1)) (sig_listeners (signals w s))
          (w\<lparr>signals := (signals w)
               (s := \<lparr>aborted = True, sig_reason = rsn, sig_listeners = []\<rparr>)\<rparr>))"

section \<open>The initial world\<close>

text \<open>
  Channel \<open>c\<close> freshly constructed with buffer size \<open>bufs c\<close>, nothing parked, no
  free list yet, every promise pending, no signal aborted.
\<close>

definition world0 :: "(nat \<Rightarrow> int) \<Rightarrow> 'v world" where
  "world0 bufs =
     \<lparr>chans = (\<lambda>c. Chan_new (bufs c)),
      racts = (\<lambda>a. \<lparr>reader = None, callback = None\<rparr>),
      wacts = (\<lambda>a. \<lparr>writer = None, wa_value = None, wa_callback = None\<rparr>),
      next_ract = 0,
      next_wact = 0,
      Reader_list = None,
      Writer_list = None,
      rcase_value = (\<lambda>k. None),
      wcase_value = (\<lambda>k. None),
      promises = (\<lambda>p. None),
      next_promise = 0,
      selects = (\<lambda>p. \<lparr>env_conns = [], env_silent = False, env_signal = None\<rparr>),
      signals = (\<lambda>s. \<lparr>aborted = False, sig_reason = Value None, sig_listeners = []\<rparr>)\<rparr>"

section \<open>Sequences of calls\<close>

text \<open>
  The calls \<open>tryWrite(v1) .. tryWrite(vn)\<close> one after the other, and \<open>n\<close> calls of
  \<open>tryRead()\<close>, each with the outcome it gave.
\<close>

fun tryWrite_each ::
    "nat \<Rightarrow> 'v option list \<Rightarrow> nat \<Rightarrow> 'v world \<Rightarrow> ('v, 'v WriteValue) outcome list \<times> 'v world" where
  "tryWrite_each c [] d w = ([], w)"
| "tryWrite_each c (v # vs) d w =
     (let (r, w1) = Chan_tryWrite c v no_opts d w;
          (rs, w2) = tryWrite_each c vs d w1
      in (r # rs, w2))"

fun tryRead_times ::
    "nat \<Rightarrow> nat \<Rightarrow> nat \<Rightarrow> 'v world \<Rightarrow> ('v, 'v ReadValue) outcome list \<times> 'v world" where
  "tryRead_times c 0 d w = ([], w)"
| "tryRead_times c (Suc n) d w =
     (let (r, w1) = Chan_tryRead c no_opts d w;
          (rs, w2) = tryRead_times c n d w1
      in (r # rs, w2))"

text \<open>
  The operations a caller has, one call each; a call that throws leaves the world it
  had reached, and the caller goes on from there. \<open>Arm ch cb\<close> is a direct call of
  \<open>ch.invoke(cb)\<close>, with a callback as described at \<open>select_cb\<close>. \<open>Disconet cn\<close> is
  \<open>cn.disconet()\<close>, the one method that the interface \<open>Connection\<close> declares;
  \<open>Disconnect cn\<close> is \<open>cn.disconnect()\<close>, the method the object has. \<open>Abort\<close> is the
  host aborting a signal. A closing that never returned would leave no state, hence
  the \<open>option\<close>.
\<close>

datatype 'v operation =
    TryRead nat Options nat
  | TryWrite nat "'v option" Options nat
  | Read nat Options nat
  | Write nat "'v option" Options nat
  | Close nat
  | Wait nat
  | Reset "'v chan_case"
  | TryInvoke "'v chan_case" bool nat
  | Arm "'v chan_case" "'v select_cb"
  | Disconet conn
  | Disconnect conn
  | Select "'v SelectOptions" "nat \<Rightarrow> nat"
  | Abort nat "'v js_any"

fun perform :: "'v operation \<Rightarrow> 'v world \<Rightarrow> 'v world option" where
  "perform (TryRead c opts d) w = Some (snd (Chan_tryRead c opts d w))"
| "perform (TryWrite c v opts d) w = Some (snd (Chan_tryWrite c v opts d w))"
| "perform (Read c opts d) w = Some (snd (Chan_read c opts d w))"
| "perform (Write c v opts d) w = Some (snd (Chan_write c v opts d w))"
| "perform (Close c) w = map_option snd (Chan_close c w)"
| "perform (Wait c) w = Some (snd (Chan_wait c w))"
| "perform (Reset ch) w = Some (Case_reset ch w)"
| "perform (TryInvoke ch slnt d) w = Some (snd (Case_tryInvoke ch slnt d w))"
| "perform (Arm ch cb) w = Some (snd (Case_invoke ch cb w))"
| "perform (Disconet cn) w = Some (snd (conn_disconet cn w))"
| "perform (Disconnect cn) w = Some (conn_disconnect cn w)"
| "perform (Select opts rnd) w = Some (snd (selectChan opts rnd w))"
| "perform (Abort s rsn) w = Some (abort s rsn w)"

fun run :: "'v operation list \<Rightarrow> 'v world \<Rightarrow> 'v world option" where
  "run [] w = Some w"
| "run (x # xs) w = (case perform x w of None \<Rightarrow> None | Some w1 \<Rightarrow> run xs w1)"

text \<open>
  An operation that parks a reader, without having tried to read first, on a channel
  whose buffer holds a value; and a sequence of operations none of which does so in the
  world where its turn comes.
\<close>

fun arms_beside_buffer :: "'v operation \<Rightarrow> 'v world \<Rightarrow> bool" where
  "arms_beside_buffer (Arm (ReadCase k c) cb) w \<longleftrightarrow> Chan_length w c \<noteq> 0"
| "arms_beside_buffer x w \<longleftrightarrow> False"

fun careful :: "'v operation list \<Rightarrow> 'v world \<Rightarrow> bool" where
  "careful [] w \<longleftrightarrow> True"
| "careful (x # xs) w \<longleftrightarrow>
     \<not> arms_beside_buffer x w \<and>
     (case perform x w of None \<Rightarrow> True | Some w1 \<Rightarrow> careful xs w1)"

text \<open>
  The invariant of the data model: wherever a reader is parked the buffer is empty.
\<close>

definition readers_wait_on_empty :: "'v world \<Rightarrow> bool" where
  "readers_wait_on_empty w \<longleftrightarrow> (\<forall>c. \<not> Reader_isEmpty w c \<longrightarrow> Chan_length w c = 0)"

text \<open>
  Half of the index coherence, which every operation of the waiter set keeps without
  any condition: an index entry points at a slot that holds its element.
\<close>

definition keys_point :: "'a Actions \<Rightarrow> bool" where
  "keys_point A \<longleftrightarrow>
     (\<forall>x i. keys A x = Some i \<longrightarrow> i < length (actions A) \<and> actions A ! i = x)"

text \<open>
  \<open>shrunk A A'\<close>: going from \<open>A\<close> to \<open>A'\<close> keeps what coherence \<open>A\<close> has and adds no
  element. \<open>removal w w'\<close>: the world \<open>w'\<close> differs from \<open>w\<close> on the channels at most in
  that waiters have left their pools.
\<close>

definition shrunk :: "'a Actions \<Rightarrow> 'a Actions \<Rightarrow> bool" where
  "shrunk A A' \<longleftrightarrow>
     (keys_point A \<longrightarrow> keys_point A' \<and> length (actions A') \<le> length (actions A)) \<and>
     (Actions_inv A \<longrightarrow> Actions_inv A' \<and> set (actions A') \<subseteq> set (actions A))"

definition removal :: "'v world \<Rightarrow> 'v world \<Rightarrow> bool" where
  "removal w w' \<longleftrightarrow>
     (\<forall>c. list (chans w' c) = list (chans w c) \<and>
          isClosed (chans w' c) = isClosed (chans w c) \<and>
          shrunk (reader_pool w c) (reader_pool w' c) \<and>
          shrunk (writer_pool w c) (writer_pool w' c))"

definition pools_point :: "'v world \<Rightarrow> bool" where
  "pools_point w \<longleftrightarrow> (\<forall>c. keys_point (reader_pool w c) \<and> keys_point (writer_pool w c))"

text \<open>What the public operations keep, from the initial world on.\<close>

definition world_inv :: "'v world \<Rightarrow> bool" where
  "world_inv w \<longleftrightarrow> pools_point w \<and> readers_wait_on_empty w"

section \<open>The ring buffer\<close>

lemma ring_mod_neq:
  fixes n :: nat
  assumes "i < j" "j < n"
  shows "(off + i) mod n \<noteq> (off + j) mod n"
proof
  assume "(off + i) mod n = (off + j) mod n"
  then have "n dvd (off + j) - (off + i)"
    using assms by (metis add_less_cancel_left less_imp_le_nat mod_eq_dvd_iff_nat)
  then have "n dvd j - i" by simp
  moreover have "0 < j - i" "j - i < n" using assms by auto
  ultimately show False by (meson dvd_imp_le not_le)
qed

lemma Ring_inv_new: "0 < n \<Longrightarrow> Ring_inv (Ring_new n)"
  by (simp add: Ring_inv_def Ring_new_def)

lemma Ring_contents_new: "Ring_contents (Ring_new n) = []"
  by (simp add: Ring_contents_def Ring_new_def)

lemma Ring_contents_length: "length (Ring_contents r) = ring_size r"
  by (simp add: Ring_contents_def)

lemma Ring_push_full: "ring_size r = length (arrs r) \<Longrightarrow> Ring_push v r = (False, r)"
  by (simp add: Ring_push_def)

lemma Ring_push_room:
  assumes "Ring_inv r" "ring_size r \<noteq> length (arrs r)"
  shows "fst (Ring_push v r) = True"
    and "Ring_inv (snd (Ring_push v r))"
    and "Ring_contents (snd (Ring_push v r)) = Ring_contents r @ [v]"
    and "length (arrs (snd (Ring_push v r))) = length (arrs r)"
proof -
  let ?n = "length (arrs r)"
  from assms have n: "ring_offset r < ?n" "ring_size r < ?n"
    by (auto simp: Ring_inv_def)
  then have "0 < ?n" by auto
  then have m: "(ring_offset r + ring_size r) mod ?n < ?n" by simp
  show "fst (Ring_push v r) = True" using assms by (simp add: Ring_push_def)
  show "Ring_inv (snd (Ring_push v r))"
    using assms n m by (simp add: Ring_push_def Ring_inv_def js_set_def)
  show "length (arrs (snd (Ring_push v r))) = length (arrs r)"
    using assms n m by (simp add: Ring_push_def js_set_def)
  have "\<forall>i < ring_size r. (ring_offset r + ring_size r) mod ?n \<noteq> (ring_offset r + i) mod ?n"
    using ring_mod_neq n by metis
  then show "Ring_contents (snd (Ring_push v r)) = Ring_contents r @ [v]"
    using assms n m by (simp add: Ring_push_def Ring_contents_def js_set_def)
qed

lemma Ring_pop_empty: "ring_size r = 0 \<Longrightarrow> Ring_pop r = (noResult, r)"
  by (simp add: Ring_pop_def)

lemma Ring_pop_done: "ir_done (fst (Ring_pop r)) \<longleftrightarrow> ring_size r = 0"
  by (simp add: Ring_pop_def noResult_def Let_def)

lemma Ring_pop_done_same: "ir_done (fst (Ring_pop r)) \<Longrightarrow> snd (Ring_pop r) = r"
  by (simp add: Ring_pop_def noResult_def Let_def split: if_splits)

lemma Ring_pop_nonempty:
  assumes "Ring_inv r" "ring_size r \<noteq> 0"
  shows "fst (Ring_pop r) = \<lparr>ir_done = False, ir_value = hd (Ring_contents r)\<rparr>"
    and "Ring_inv (snd (Ring_pop r))"
    and "Ring_contents (snd (Ring_pop r)) = tl (Ring_contents r)"
    and "length (arrs (snd (Ring_pop r))) = length (arrs r)"
    and "ring_size (snd (Ring_pop r)) = ring_size r - 1"
proof -
  let ?n = "length (arrs r)"
  from assms have n: "ring_offset r < ?n" "ring_size r \<le> ?n" "0 < ring_size r"
    by (auto simp: Ring_inv_def)
  have hd: "hd (Ring_contents r) = arrs r ! ring_offset r"
    using n by (simp add: Ring_contents_def hd_map upt_conv_Cons)
  show "fst (Ring_pop r) = \<lparr>ir_done = False, ir_value = hd (Ring_contents r)\<rparr>"
    using n hd by (simp add: Ring_pop_def Let_def js_get_def)
  show "Ring_inv (snd (Ring_pop r))"
    using n by (auto simp: Ring_pop_def Let_def Ring_inv_def js_set_def)
  show "length (arrs (snd (Ring_pop r))) = length (arrs r)"
    using n by (simp add: Ring_pop_def Let_def js_set_def)
  show "ring_size (snd (Ring_pop r)) = ring_size r - 1"
    using n by (simp add: Ring_pop_def Let_def)
  have pop_eq: "snd (Ring_pop r) =
      \<lparr>arrs = (arrs r)[ring_offset r := None], ring_offset = (ring_offset r + 1) mod ?n,
       ring_size = ring_size r - 1\<rparr>"
    using n by (auto simp: Ring_pop_def Let_def js_set_def)
  have neq: "\<forall>i < ring_size r - 1. ring_offset r \<noteq> (ring_offset r + (i + 1)) mod ?n"
  proof (intro allI impI)
    fix i assume "i < ring_size r - 1"
    then have "0 < i + 1" "i + 1 < ?n" using n by auto
    from ring_mod_neq[OF this, of "ring_offset r"] n show "ring_offset r \<noteq> (ring_offset r + (i + 1)) mod ?n"
      by simp
  qed
  have "[Suc 0..<ring_size r] = map Suc [0..<ring_size r - 1]"
    using n by (simp add: map_Suc_upt)
  then have tl: "tl (Ring_contents r) = map (\<lambda>i. arrs r ! ((ring_offset r + (i + 1)) mod ?n)) [0..<ring_size r - 1]"
    using n by (simp add: Ring_contents_def map_tl[symmetric] upt_conv_Cons comp_def del: upt_Suc)
  have "((ring_offset r + 1) mod ?n + i) mod ?n = (ring_offset r + (i + 1)) mod ?n" for i
    by (simp add: mod_add_left_eq add.assoc)
  then show "Ring_contents (snd (Ring_pop r)) = tl (Ring_contents r)"
    unfolding tl pop_eq using neq
    by (simp add: Ring_contents_def)
qed

section \<open>The waiter set\<close>

lemma Actions_inv_iff:
  "Actions_inv A \<longleftrightarrow>
     distinct (actions A) \<and>
     (\<forall>w i. keys A w = Some i \<longleftrightarrow> i < length (actions A) \<and> actions A ! i = w)"
  (is "?L \<longleftrightarrow> ?R")
proof
  assume L: ?L
  then have d: "distinct (actions A)"
    and st: "\<And>w. w \<in> set (actions A) \<Longrightarrow> \<exists>i. keys A w = Some i \<and> i < length (actions A) \<and> actions A ! i = w"
    and dm: "dom (keys A) = set (actions A)"
    by (auto simp: Actions_inv_def index_coherent_def)
  have "keys A w = Some i \<longleftrightarrow> i < length (actions A) \<and> actions A ! i = w" for w i
  proof
    assume k: "keys A w = Some i"
    then have "w \<in> set (actions A)" using dm by auto
    from st[OF this] k show "i < length (actions A) \<and> actions A ! i = w" by auto
  next
    assume a: "i < length (actions A) \<and> actions A ! i = w"
    then have "w \<in> set (actions A)" by auto
    from st[OF this] obtain j where j: "keys A w = Some j" "j < length (actions A)" "actions A ! j = w"
      by auto
    with a d have "j = i" using nth_eq_iff_index_eq by blast
    with j show "keys A w = Some i" by simp
  qed
  with d show ?R by blast
next
  assume R: ?R
  then have d: "distinct (actions A)"
    and k: "\<And>w i. keys A w = Some i \<longleftrightarrow> i < length (actions A) \<and> actions A ! i = w"
    by auto
  have "dom (keys A) = set (actions A)"
    using k by (auto simp: in_set_conv_nth dom_def)
  moreover have "\<forall>w \<in> set (actions A). \<exists>i. keys A w = Some i \<and> i < length (actions A) \<and> actions A ! i = w"
    using k by (auto simp: in_set_conv_nth)
  ultimately show ?L using d by (simp add: Actions_inv_def index_coherent_def)
qed

lemma Actions_inv_new: "Actions_inv Actions_new"
  by (simp add: Actions_inv_def index_coherent_def Actions_new_def)

lemma Actions_inv_clear: "Actions_inv (Actions_clear A)"
  by (simp add: Actions_inv_def index_coherent_def Actions_clear_def)

lemma Actions_inv_push:
  assumes "Actions_inv A" "val \<notin> set (actions A)"
  shows "Actions_inv (Actions_push val A)"
  using assms unfolding Actions_inv_iff Actions_push_def
  by (auto simp: nth_append less_Suc_eq)



lemma Actions_inv_empty_keys:
  assumes "Actions_inv A" "actions A = []"
  shows "keys A = Map.empty"
proof
  fix w show "keys A w = None"
    using assms unfolding Actions_inv_iff by (cases "keys A w") auto
qed

lemma Actions_inv_butlast:
  assumes "Actions_inv A" "actions A \<noteq> []"
    and B: "actions B = butlast (actions A)" "keys B = (keys A)(last (actions A) := None)"
  shows "Actions_inv B"
proof -
  let ?xs = "actions A"
  from assms have d: "distinct ?xs"
    and k: "\<And>w i. keys A w = Some i \<longleftrightarrow> i < length ?xs \<and> ?xs ! i = w"
    unfolding Actions_inv_iff by auto
  have l: "last ?xs = ?xs ! (length ?xs - 1)" using assms(2) by (simp add: last_conv_nth)
  have "((keys A)(last ?xs := None)) w = Some i \<longleftrightarrow> i < length (butlast ?xs) \<and> butlast ?xs ! i = w" for w i
  proof (cases "w = last ?xs")
    case True
    have "\<not> (i < length ?xs - 1 \<and> ?xs ! i = ?xs ! (length ?xs - 1))"
      using d assms(2) by (auto simp: nth_eq_iff_index_eq)
    then show ?thesis using True l by (auto simp: nth_butlast)
  next
    case False
    have "?xs ! i = w \<Longrightarrow> i < length ?xs \<Longrightarrow> i < length ?xs - 1"
      using False l by (cases "i = length ?xs - 1") auto
    then show ?thesis using False k[of w i] by (auto simp: nth_butlast)
  qed
  then show ?thesis unfolding Actions_inv_iff B using d by (simp add: distinct_butlast)
qed

lemma Actions_inv_pop:
  assumes "Actions_inv A"
  shows "Actions_inv (snd (Actions_pop A))"
proof (cases "actions A = []")
  case True
  then have "keys A = Map.empty" using assms by (rule Actions_inv_empty_keys[rotated])
  then have "snd (Actions_pop A) = A" using True by (simp add: Actions_pop_def Actions__pop_def)
  then show ?thesis using assms by simp
next
  case False
  show ?thesis
    by (rule Actions_inv_butlast[OF assms False])
       (simp_all add: Actions_pop_def Actions__pop_def False)
qed

lemma Actions_inv_swap:
  assumes "Actions_inv A" "i < length (actions A) - 1"
    and B: "actions B = (butlast (actions A))[i := last (actions A)]"
           "keys B = ((keys A)(actions A ! i := None))(last (actions A) \<mapsto> i)"
  shows "Actions_inv B"
proof -
  let ?xs = "actions A"
  let ?n = "length ?xs"
  from assms have ne: "?xs \<noteq> []" by auto
  from assms have d: "distinct ?xs"
    and k: "\<And>w j. keys A w = Some j \<longleftrightarrow> j < ?n \<and> ?xs ! j = w"
    unfolding Actions_inv_iff by auto
  have l: "last ?xs = ?xs ! (?n - 1)" using ne by (simp add: last_conv_nth)
  have neq: "?xs ! i \<noteq> last ?xs"
    using d assms(2) l by (auto simp: nth_eq_iff_index_eq)
  have "(((keys A)(?xs ! i := None))(last ?xs \<mapsto> i)) w = Some j \<longleftrightarrow>
          j < length ((butlast ?xs)[i := last ?xs]) \<and> (butlast ?xs)[i := last ?xs] ! j = w" for w j
  proof (cases "w = last ?xs")
    case True
    show ?thesis
    proof (cases "j = i")
      case True
      then show ?thesis using \<open>w = last ?xs\<close> assms(2) by simp
    next
      case False
      have "\<not> (j < ?n - 1 \<and> ?xs ! j = ?xs ! (?n - 1))"
        using d ne by (auto simp: nth_eq_iff_index_eq)
      then show ?thesis using False \<open>w = last ?xs\<close> l by (auto simp: nth_butlast)
    qed
  next
    case wl: False
    show ?thesis
    proof (cases "w = ?xs ! i")
      case True
      have "\<not> (j < ?n - 1 \<and> j \<noteq> i \<and> ?xs ! j = ?xs ! i)"
        using d assms(2) by (auto simp: nth_eq_iff_index_eq)
      then show ?thesis using True wl neq assms(2) by (auto simp: nth_butlast nth_list_update)
    next
      case False
      have "?xs ! j = w \<Longrightarrow> j < ?n \<Longrightarrow> j < ?n - 1 \<and> j \<noteq> i"
        using False wl l by (cases "j = ?n - 1") auto
      then show ?thesis using False wl k[of w j] assms(2) by (auto simp: nth_butlast nth_list_update)
    qed
  qed
  moreover have "distinct ((butlast ?xs)[i := last ?xs])"
  proof -
    have "distinct (butlast ?xs @ [last ?xs])" using d ne by simp
    then have "last ?xs \<notin> set (butlast ?xs)" by simp
    then show ?thesis using d by (simp add: distinct_list_update distinct_butlast)
  qed
  ultimately show ?thesis unfolding Actions_inv_iff B by simp
qed

lemma Actions_inv_removeBy:
  assumes "Actions_inv A" "i < length (actions A)"
  shows "Actions_inv (snd (Actions_removeBy i A))"
proof (cases "i = length (actions A) - 1")
  case True
  with assms have ne: "actions A \<noteq> []" by auto
  show ?thesis
    by (rule Actions_inv_butlast[OF assms(1) ne])
       (simp_all add: Actions_removeBy_def Actions__pop_def ne True)
next
  case False
  with assms have i: "i < length (actions A) - 1" and ne: "actions A \<noteq> []" by auto
  show ?thesis
    by (rule Actions_inv_swap[OF assms(1) i])
       (use i ne in \<open>simp_all add: Actions_removeBy_def Actions__pop_def js_get_def js_set_def nth_butlast Let_def\<close>)
qed

lemma Actions_remove_absent:
  "keys A val = None \<Longrightarrow> Actions_remove val A = A"
  by (simp add: Actions_remove_def)

lemma Actions_inv_remove:
  assumes "Actions_inv A"
  shows "Actions_inv (Actions_remove val A)"
proof (cases "keys A val")
  case None
  then show ?thesis using assms by (simp add: Actions_remove_def)
next
  case (Some i)
  then have i: "i < length (actions A)" "actions A ! i = val"
    using assms unfolding Actions_inv_iff by auto
  then have ne: "actions A \<noteq> []" by auto
  show ?thesis
  proof (cases "i = length (actions A) - 1")
    case True
    then have v: "val = last (actions A)" using i ne by (simp add: last_conv_nth)
    show ?thesis
      by (rule Actions_inv_butlast[OF assms ne])
         (use True Some ne v in \<open>simp_all add: Actions_remove_def Actions__pop_def\<close>)
  next
    case False
    with i have i': "i < length (actions A) - 1" by auto
    show ?thesis
      by (rule Actions_inv_swap[OF assms i'])
         (use i i' Some ne in \<open>simp_all add: Actions_remove_def Actions__pop_def js_set_def Let_def\<close>)
  qed
qed

lemma Actions_inv_absent:
  assumes "Actions_inv A" "val \<notin> set (actions A)"
  shows "keys A val = None"
  using assms unfolding Actions_inv_def index_coherent_def by auto

lemma Actions_inv_keys_point: "Actions_inv A \<Longrightarrow> keys_point A"
  unfolding Actions_inv_iff keys_point_def by blast

lemma Actions_inv_remove_set:
  assumes "Actions_inv A"
  shows "set (actions (Actions_remove val A)) = set (actions A) - {val}"
proof (cases "keys A val")
  case None
  then have "val \<notin> set (actions A)"
    using assms unfolding Actions_inv_def index_coherent_def by auto
  then show ?thesis using None by (simp add: Actions_remove_def)
next
  case (Some i)
  let ?xs = "actions A"
  from Some have i: "i < length ?xs" "?xs ! i = val"
    using assms unfolding Actions_inv_iff by auto
  then have ne: "?xs \<noteq> []" by auto
  have d: "distinct ?xs" using assms by (simp add: Actions_inv_def)
  have sp: "?xs = butlast ?xs @ [last ?xs]" using ne by simp
  have dl: "distinct (butlast ?xs @ [last ?xs])" using d ne by simp
  show ?thesis
  proof (cases "i = length ?xs - 1")
    case True
    then have v: "val = last ?xs" using i ne by (simp add: last_conv_nth)
    have "set ?xs - {last ?xs} = set (butlast ?xs)"
      using dl by (subst sp) auto
    then show ?thesis using True Some ne v
      by (simp add: Actions_remove_def Actions__pop_def)
  next
    case False
    with i have i': "i < length (butlast ?xs)" by auto
    have bi: "butlast ?xs ! i = val" using i i' by (simp add: nth_butlast)
    have db: "distinct (butlast ?xs)" using d by (simp add: distinct_butlast)
    have "set ((butlast ?xs)[i := last ?xs]) = insert (last ?xs) (set (butlast ?xs) - {val})"
      using db i' bi by (metis set_update_distinct)
    moreover have "set ?xs - {val} = insert (last ?xs) (set (butlast ?xs) - {val})"
    proof -
      have "val \<noteq> last ?xs" using dl bi i' by (metis disjoint_insert(1) distinct_append list.set(2) nth_mem)
      then show ?thesis by (subst sp) auto
    qed
    ultimately show ?thesis using False Some ne i i'
      by (simp add: Actions_remove_def Actions__pop_def js_set_def Let_def)
  qed
qed

section \<open>What every operation of the waiter set keeps\<close>

lemma keys_point_butlast:
  assumes "keys_point A" "actions A \<noteq> []"
    and B: "actions B = butlast (actions A)" "keys B = (keys A)(last (actions A) := None)"
  shows "keys_point B"
  unfolding keys_point_def B
proof (intro allI impI)
  fix x j
  assume a: "((keys A)(last (actions A) := None)) x = Some j"
  then have x: "x \<noteq> last (actions A)" and k: "keys A x = Some j"
    by (auto split: if_splits)
  from k assms(1) have j: "j < length (actions A)" "actions A ! j = x"
    by (auto simp: keys_point_def)
  have "j \<noteq> length (actions A) - 1"
    using x j assms(2) by (auto simp: last_conv_nth)
  with j show "j < length (butlast (actions A)) \<and> butlast (actions A) ! j = x"
    by (simp add: nth_butlast)
qed

lemma keys_point_swap:
  assumes "keys_point A" "i < length (actions A) - 1"
    and B: "actions B = (butlast (actions A))[i := last (actions A)]"
           "keys B = ((keys A)(actions A ! i := None))(last (actions A) \<mapsto> i)"
  shows "keys_point B"
  unfolding keys_point_def B
proof (intro allI impI)
  fix x j
  let ?xs = "actions A"
  assume a: "((keys A)(?xs ! i := None, last ?xs \<mapsto> i)) x = Some j"
  from assms(2) have ne: "?xs \<noteq> []" by auto
  show "j < length ((butlast ?xs)[i := last ?xs]) \<and> (butlast ?xs)[i := last ?xs] ! j = x"
  proof (cases "x = last ?xs")
    case True
    with a have "j = i" by simp
    then show ?thesis using True assms(2) by simp
  next
    case False
    with a have xi: "x \<noteq> ?xs ! i" and k: "keys A x = Some j"
      by (auto split: if_splits)
    from k assms(1) have j: "j < length ?xs" "?xs ! j = x"
      by (auto simp: keys_point_def)
    have "j \<noteq> length ?xs - 1" using False j ne by (auto simp: last_conv_nth)
    moreover have "j \<noteq> i" using xi j by auto
    ultimately show ?thesis using j assms(2) by (simp add: nth_butlast)
  qed
qed

lemma keys_point_new: "keys_point Actions_new"
  by (simp add: keys_point_def Actions_new_def)

lemma keys_point_clear: "keys_point (Actions_clear A)"
  by (simp add: keys_point_def Actions_clear_def)

lemma keys_point_push: "keys_point A \<Longrightarrow> keys_point (Actions_push val A)"
  by (auto simp: keys_point_def Actions_push_def nth_append less_Suc_eq)

lemma keys_point_pop:
  assumes "keys_point A"
  shows "keys_point (snd (Actions_pop A))"
proof (cases "actions A = []")
  case True
  then show ?thesis using assms
    by (auto simp: Actions_pop_def Actions__pop_def keys_point_def split: if_splits)
next
  case False
  show ?thesis
    by (rule keys_point_butlast[OF assms False])
       (simp_all add: Actions_pop_def Actions__pop_def False)
qed

lemma keys_point_removeBy:
  assumes "keys_point A" "i < length (actions A)"
  shows "keys_point (snd (Actions_removeBy i A))"
proof (cases "i = length (actions A) - 1")
  case True
  with assms have ne: "actions A \<noteq> []" by auto
  show ?thesis
    by (rule keys_point_butlast[OF assms(1) ne])
       (simp_all add: Actions_removeBy_def Actions__pop_def ne True)
next
  case False
  with assms have i: "i < length (actions A) - 1" and ne: "actions A \<noteq> []" by auto
  show ?thesis
    by (rule keys_point_swap[OF assms(1) i])
       (use i ne in \<open>simp_all add: Actions_removeBy_def Actions__pop_def js_get_def js_set_def nth_butlast Let_def\<close>)
qed

lemma keys_point_remove:
  assumes "keys_point A"
  shows "keys_point (Actions_remove val A)"
proof (cases "keys A val")
  case None
  then show ?thesis using assms by (simp add: Actions_remove_def)
next
  case (Some i)
  then have i: "i < length (actions A)" "actions A ! i = val"
    using assms unfolding keys_point_def by auto
  then have ne: "actions A \<noteq> []" by auto
  show ?thesis
  proof (cases "i = length (actions A) - 1")
    case True
    then have v: "val = last (actions A)" using i ne by (simp add: last_conv_nth)
    show ?thesis
      by (rule keys_point_butlast[OF assms ne])
         (use True Some ne v in \<open>simp_all add: Actions_remove_def Actions__pop_def\<close>)
  next
    case False
    with i have i': "i < length (actions A) - 1" by auto
    show ?thesis
      by (rule keys_point_swap[OF assms i'])
         (use i i' Some ne in \<open>simp_all add: Actions_remove_def Actions__pop_def js_set_def Let_def\<close>)
  qed
qed

lemma length_Actions_pop: "length (actions (snd (Actions_pop A))) = length (actions A) - 1"
  by (simp add: Actions_pop_def Actions__pop_def)

lemma length_Actions_removeBy:
  "i < length (actions A) \<Longrightarrow> length (actions (snd (Actions_removeBy i A))) = length (actions A) - 1"
  by (auto simp: Actions_removeBy_def Actions__pop_def js_set_def Let_def)

lemma length_Actions_remove:
  assumes "keys_point A"
  shows "length (actions (Actions_remove val A)) \<le> length (actions A)"
proof (cases "keys A val")
  case None
  then show ?thesis by (simp add: Actions_remove_def)
next
  case (Some i)
  then have "i < length (actions A)" using assms by (auto simp: keys_point_def)
  then show ?thesis using Some
    by (auto simp: Actions_remove_def Actions__pop_def js_set_def Let_def)
qed

lemma set_Actions_pop: "set (actions (snd (Actions_pop A))) \<subseteq> set (actions A)"
  by (auto simp: Actions_pop_def Actions__pop_def dest: in_set_butlastD)

lemma set_Actions_removeBy:
  assumes "i < length (actions A)"
  shows "set (actions (snd (Actions_removeBy i A))) \<subseteq> set (actions A)"
proof -
  from assms have ne: "actions A \<noteq> []" by auto
  have "set ((butlast (actions A))[i := last (actions A)]) \<subseteq> insert (last (actions A)) (set (butlast (actions A)))"
    by (rule set_update_subset_insert)
  also have "\<dots> \<subseteq> set (actions A)" using ne by (auto dest: in_set_butlastD)
  finally show ?thesis using assms ne
    by (auto simp: Actions_removeBy_def Actions__pop_def js_set_def Let_def dest: in_set_butlastD)
qed

section \<open>Pools that only lose waiters\<close>

lemma shrunk_refl: "shrunk A A"
  by (simp add: shrunk_def)

lemma shrunk_trans: "shrunk A B \<Longrightarrow> shrunk B C \<Longrightarrow> shrunk A C"
  unfolding shrunk_def by (meson order_trans)

lemma shrunk_remove: "shrunk A (Actions_remove val A)"
  unfolding shrunk_def
  using keys_point_remove length_Actions_remove Actions_inv_remove Actions_inv_remove_set
  by fastforce

lemma shrunk_pop: "shrunk A (snd (Actions_pop A))"
  unfolding shrunk_def
  using keys_point_pop length_Actions_pop[of A] Actions_inv_pop set_Actions_pop
  by fastforce

lemma shrunk_removeBy: "i < length (actions A) \<Longrightarrow> shrunk A (snd (Actions_removeBy i A))"
  unfolding shrunk_def
  using keys_point_removeBy length_Actions_removeBy[of i A] Actions_inv_removeBy set_Actions_removeBy
  by fastforce

lemma shrunk_clear: "shrunk A (Actions_clear A)"
  by (simp add: shrunk_def keys_point_clear Actions_inv_clear) (simp add: Actions_clear_def)

section \<open>Callbacks leave the channels as they are\<close>

lemma removal_refl: "removal w w"
  by (simp add: removal_def shrunk_refl)

lemma removal_trans: "removal w w1 \<Longrightarrow> removal w1 w2 \<Longrightarrow> removal w w2"
  unfolding removal_def by (metis shrunk_trans)

lemma removal_chans: "chans w' = chans w \<Longrightarrow> removal w w'"
  by (simp add: removal_def reader_pool_def writer_pool_def shrunk_refl)

lemma removal_chans_right: "removal w w1 \<Longrightarrow> chans w2 = chans w1 \<Longrightarrow> removal w w2"
  by (simp add: removal_def reader_pool_def writer_pool_def)

lemma removal_chans_left: "removal w1 w2 \<Longrightarrow> chans w1 = chans w \<Longrightarrow> removal w w2"
  by (simp add: removal_def reader_pool_def writer_pool_def)

lemma chans_settle: "chans (settle p x w) = chans w"
  by (simp add: settle_def)

lemma chans_removeEventListener: "chans (removeEventListener s p w) = chans w"
  by (simp add: removeEventListener_def split: option.splits)

lemma chans_addEventListener: "chans (addEventListener s l w) = chans w"
  by (simp add: addEventListener_def split: option.splits)

lemma chans_new_promise: "chans (snd (new_promise w)) = chans w"
  by (simp add: new_promise_def)

lemma removal_set_reader_pool:
  "shrunk (reader_pool w c) A \<Longrightarrow> removal w (set_reader_pool c A w)"
  by (simp add: removal_def set_reader_pool_def upd_chan_def reader_pool_def writer_pool_def shrunk_refl)

lemma removal_set_writer_pool:
  "shrunk (writer_pool w c) A \<Longrightarrow> removal w (set_writer_pool c A w)"
  by (simp add: removal_def set_writer_pool_def upd_chan_def reader_pool_def writer_pool_def shrunk_refl)

lemma removal_Reader_disconnect: "removal w (Reader_disconnect c a w)"
proof -
  have "removal w (set_reader_pool c (Actions_remove (Some a) (reader_pool w c)) w)"
    by (rule removal_set_reader_pool) (rule shrunk_remove)
  then show ?thesis
    by (auto simp: Reader_disconnect_def Let_def split: option.splits elim: removal_chans_right)
qed

lemma removal_ReadAction_disconnect: "removal w (ReadAction_disconnect a w)"
proof (cases "reader (racts w a)")
  case None
  then show ?thesis by (simp add: ReadAction_disconnect_def removal_refl)
next
  case (Some c)
  have "removal (w\<lparr>racts := (racts w)(a := \<lparr>reader = None, callback = None\<rparr>)\<rparr>)
          (Reader_disconnect c a (w\<lparr>racts := (racts w)(a := \<lparr>reader = None, callback = None\<rparr>)\<rparr>))"
    by (rule removal_Reader_disconnect)
  then show ?thesis using Some
    by (simp add: ReadAction_disconnect_def removal_chans_left)
qed

lemma removal_Writer_disconnect: "removal w (Writer_disconnect c a w)"
proof -
  have "removal w (set_writer_pool c (Actions_remove (Some a) (writer_pool w c)) w)"
    by (rule removal_set_writer_pool) (rule shrunk_remove)
  then show ?thesis
    by (auto simp: Writer_disconnect_def Let_def split: option.splits elim: removal_chans_right)
qed

lemma removal_WirteAction_disconnect: "removal w (WirteAction_disconnect a w)"
proof (cases "writer (wacts w a)")
  case None
  then show ?thesis by (simp add: WirteAction_disconnect_def removal_refl)
next
  case (Some c)
  have "removal (w\<lparr>wacts := (wacts w)(a := \<lparr>writer = None, wa_value = None, wa_callback = None\<rparr>)\<rparr>)
          (Writer_disconnect c a (w\<lparr>wacts := (wacts w)(a := \<lparr>writer = None, wa_value = None, wa_callback = None\<rparr>)\<rparr>))"
    by (rule removal_Writer_disconnect)
  then show ?thesis using Some
    by (simp add: WirteAction_disconnect_def removal_chans_left)
qed

lemma removal_conn_disconnect: "removal w (conn_disconnect cn w)"
  by (cases cn) (simp_all add: removal_ReadAction_disconnect removal_WirteAction_disconnect)

lemma chans_conn_disconet: "snd (conn_disconet cn w) = w"
  by (simp add: conn_disconet_def)

lemma chans_disconet_each: "chans (snd (disconet_each cns w)) = chans w"
proof (induction cns arbitrary: w)
  case Nil
  show ?case by simp
next
  case (Cons cn cns)
  show ?case using Cons.IH by (simp add: conn_disconet_def)
qed

lemma chans_select_cleanup: "chans (snd (select_cleanup p b w)) = chans w"
  by (simp add: select_cleanup_def Let_def chans_disconet_each chans_removeEventListener)

lemma chans_select_cb_run: "chans (snd (select_cb_run cb ch e rsn w)) = chans w"
proof (cases cb)
  case (SelectCb p)
  obtain x w1 where t: "select_cleanup p False w = (x, w1)" by (cases "select_cleanup p False w")
  with chans_select_cleanup[of p False w] have "chans w1 = chans w" by simp
  then show ?thesis using SelectCb t by (cases x) (simp_all add: chans_settle)
qed simp_all

lemma chans_rcb_run: "chans (snd (rcb_run cb val w)) = chans w"
  by (cases cb) (simp_all add: chans_settle chans_removeEventListener chans_select_cb_run)

lemma chans_wcb_run: "chans (snd (wcb_run cb ok rsn w)) = chans w"
  by (cases cb) (simp_all add: chans_settle chans_removeEventListener chans_select_cb_run Let_def)

lemma chans_ReadAction_invoke: "chans (snd (ReadAction_invoke a val w)) = chans w"
  by (simp add: ReadAction_invoke_def chans_rcb_run split: option.splits)

lemma chans_WirteAction_invoke: "chans (snd (WirteAction_invoke a w)) = chans w"
  by (simp add: WirteAction_invoke_def chans_wcb_run split: option.splits)

lemma chans_WirteAction_close: "chans (snd (WirteAction_close a rsn w)) = chans w"
  by (simp add: WirteAction_close_def chans_wcb_run split: option.splits)

lemma removal_ReadAction_invoke: "removal w (snd (ReadAction_invoke a val w))"
  by (rule removal_chans) (rule chans_ReadAction_invoke)

lemma removal_WirteAction_invoke: "removal w (snd (WirteAction_invoke a w))"
  by (rule removal_chans) (rule chans_WirteAction_invoke)

lemma removal_WirteAction_close: "removal w (snd (WirteAction_close a rsn w))"
  by (rule removal_chans) (rule chans_WirteAction_close)

lemma chans_run_listener: "chans (snd (run_listener s l w)) = chans w"
proof (cases l)
  case (SelectOnAbort p)
  obtain x w1 where t: "select_cleanup p True w = (x, w1)" by (cases "select_cleanup p True w")
  with chans_select_cleanup[of p True w] have "chans w1 = chans w" by simp
  then show ?thesis using SelectOnAbort t by (cases x) (simp_all add: chans_settle)
qed (simp_all add: chans_settle conn_disconet_def)

lemma chans_fold_listener:
  "chans (fold (\<lambda>l w1. snd (run_listener s l w1)) ls w) = chans w"
proof (induction ls arbitrary: w)
  case Nil
  show ?case by simp
next
  case (Cons l ls)
  show ?case using Cons.IH by (simp add: chans_run_listener)
qed

lemma chans_abort: "chans (abort s rsn w) = chans w"
  by (simp add: abort_def chans_fold_listener)

lemma removal_abort: "removal w (abort s rsn w)"
  by (rule removal_chans) (rule chans_abort)

section \<open>The engine's try operations\<close>

lemma upd_chan_same: "f (chans w c) = chans w c \<Longrightarrow> upd_chan c f w = w"
  by (simp add: upd_chan_def)

lemma RW_tryRead_direct_noResult:
  assumes "RW_tryRead_direct d c w = (Return (Some r), w')" "ir_done r"
  shows "w' = w \<and> r = noResult \<and> \<not> isClosed (chans w c) \<and> Writer_isEmpty w c"
  using assms
  by (auto simp: RW_tryRead_direct_def split: if_splits prod.splits outcome.splits)

lemma RW_tryRead_noResult:
  assumes "RW_tryRead d c w = (Return (Some r), w')" "ir_done r"
  shows "w' = w \<and> r = noResult \<and> RW_length (chans w c) = 0 \<and> \<not> isClosed (chans w c)
         \<and> Writer_isEmpty w c"
proof (cases "list (chans w c)")
  case None
  then show ?thesis using assms RW_tryRead_direct_noResult[of d c w r w']
    by (simp add: RW_tryRead_def RW_length_def)
next
  case (Some l)
  show ?thesis
  proof (cases "ir_done (fst (Ring_pop l))")
    case True
    then have same: "snd (Ring_pop l) = l" and sz: "ring_size l = 0"
      by (simp_all add: Ring_pop_done_same Ring_pop_done)
    have "upd_chan c (\<lambda>rw. rw\<lparr>list := Some l\<rparr>) w = w"
      using Some by (simp add: upd_chan_same)
    then have "RW_tryRead d c w = RW_tryRead_direct d c w"
      using Some True same by (simp add: RW_tryRead_def split_beta Let_def)
    then show ?thesis using assms RW_tryRead_direct_noResult[of d c w r w'] Some sz
      by (simp add: RW_length_def Ring_length_def)
  next
    case False
    then have "\<not> ir_done r" using assms(1) Some
      by (auto simp: RW_tryRead_def split_beta Let_def split: if_splits prod.splits outcome.splits)
    then show ?thesis using assms(2) by simp
  qed
qed

lemma RW_tryWrite_full:
  assumes "RW_tryWrite d c v w = (Return (Some False), w')"
  shows "w' = w \<and> \<not> isClosed (chans w c) \<and> Reader_isEmpty w c
         \<and> RW_length (chans w c) = RW_capacity (chans w c)"
proof -
  from assms have nc: "\<not> isClosed (chans w c)" and re: "Reader_isEmpty w c"
    by (auto simp: RW_tryWrite_def split: if_splits prod.splits outcome.splits)
  show ?thesis
  proof (cases "list (chans w c)")
    case None
    then show ?thesis using assms nc re
      by (simp add: RW_tryWrite_def RW_length_def RW_capacity_def)
  next
    case (Some l)
    then have "fst (Ring_push v l) = False" using assms nc re
      by (auto simp: RW_tryWrite_def split_beta)
    then have full: "ring_size l = length (arrs l)"
      by (auto simp: Ring_push_def split: if_splits)
    then have "Ring_push v l = (False, l)" by (rule Ring_push_full)
    then show ?thesis using assms nc re Some full
      by (simp add: RW_tryWrite_def upd_chan_same RW_length_def RW_capacity_def
                    Ring_length_def Ring_capacity_def)
  qed
qed

lemma RW_tryWrite_closed: "isClosed (chans w c) \<Longrightarrow> RW_tryWrite d c v w = (Return None, w)"
  by (simp add: RW_tryWrite_def)

section \<open>A buffered channel with nobody parked\<close>

lemma Chan_tryWrite_room:
  assumes "list (chans w c) = Some l" "Ring_inv l" "ring_size l \<noteq> length (arrs l)"
    "Reader_isEmpty w c" "\<not> isClosed (chans w c)"
  shows "Chan_tryWrite c v no_opts d w =
           (Return \<lparr>wv_ok = Some True, wv_error = False, wv_reason = Value None\<rparr>,
            upd_chan c (\<lambda>rw. rw\<lparr>list := Some (snd (Ring_push v l))\<rparr>) w)"
  using assms Ring_push_room(1)[OF assms(2,3), of v]
  by (simp add: Chan_tryWrite_def no_opts_def signal_aborted_def RW_tryWrite_def split_beta)

lemma Chan_tryWrite_full:
  assumes "list (chans w c) = Some l" "ring_size l = length (arrs l)"
    "Reader_isEmpty w c" "\<not> isClosed (chans w c)"
  shows "Chan_tryWrite c v no_opts d w =
           (Return \<lparr>wv_ok = Some False, wv_error = False, wv_reason = Value None\<rparr>, w)"
  using assms Ring_push_full[OF assms(2), of v]
  by (simp add: Chan_tryWrite_def no_opts_def signal_aborted_def RW_tryWrite_def upd_chan_same)

lemma Chan_tryRead_buffered:
  assumes "list (chans w c) = Some l" "Ring_inv l" "ring_size l \<noteq> 0" "Writer_isEmpty w c"
  shows "Chan_tryRead c no_opts d w =
           (Return \<lparr>rv_closed = Some False, rv_reason = Value None, rv_ok = True,
                    rv_value = hd (Ring_contents l)\<rparr>,
            upd_chan c (\<lambda>rw. rw\<lparr>list := Some (snd (Ring_pop l))\<rparr>) w)"
proof -
  have e: "Writer_isEmpty (upd_chan c (\<lambda>rw. rw\<lparr>list := Some (snd (Ring_pop l))\<rparr>) w) c"
    using assms(4) by (simp add: Writer_isEmpty_def writer_pool_def upd_chan_def)
  show ?thesis
    using assms(1) e Ring_pop_nonempty(1)[OF assms(2,3)]
    by (simp add: Chan_tryRead_def no_opts_def signal_aborted_def RW_tryRead_def split_beta Let_def)
qed

lemma tryWrite_each_room:
  assumes "list (chans w c) = Some l" "Ring_inv l" "ring_size l + length vs \<le> length (arrs l)"
    "Reader_isEmpty w c" "Writer_isEmpty w c" "\<not> isClosed (chans w c)"
  shows "\<exists>l'. fst (tryWrite_each c vs d w)
                 = map (\<lambda>v. Return \<lparr>wv_ok = Some True, wv_error = False, wv_reason = Value None\<rparr>) vs \<and>
              list (chans (snd (tryWrite_each c vs d w)) c) = Some l' \<and>
              Ring_inv l' \<and> Ring_contents l' = Ring_contents l @ vs \<and>
              length (arrs l') = length (arrs l) \<and>
              Reader_isEmpty (snd (tryWrite_each c vs d w)) c \<and>
              Writer_isEmpty (snd (tryWrite_each c vs d w)) c \<and>
              \<not> isClosed (chans (snd (tryWrite_each c vs d w)) c)"
  using assms
proof (induction vs arbitrary: w l)
  case Nil
  then show ?case by simp
next
  case (Cons v vs)
  let ?l1 = "snd (Ring_push v l)"
  let ?w1 = "upd_chan c (\<lambda>rw. rw\<lparr>list := Some ?l1\<rparr>) w"
  from Cons.prems have room: "ring_size l \<noteq> length (arrs l)" by auto
  have step: "Chan_tryWrite c v no_opts d w =
      (Return \<lparr>wv_ok = Some True, wv_error = False, wv_reason = Value None\<rparr>, ?w1)"
    using Cons.prems room by (intro Chan_tryWrite_room) auto
  note p = Ring_push_room[OF Cons.prems(2) room, of v]
  have sz: "ring_size ?l1 = ring_size l + 1"
    using p(3) Ring_contents_length[of ?l1] Ring_contents_length[of l] by simp
  have "\<exists>l'. fst (tryWrite_each c vs d ?w1)
                 = map (\<lambda>v. Return \<lparr>wv_ok = Some True, wv_error = False, wv_reason = Value None\<rparr>) vs \<and>
              list (chans (snd (tryWrite_each c vs d ?w1)) c) = Some l' \<and>
              Ring_inv l' \<and> Ring_contents l' = Ring_contents ?l1 @ vs \<and>
              length (arrs l') = length (arrs ?l1) \<and>
              Reader_isEmpty (snd (tryWrite_each c vs d ?w1)) c \<and>
              Writer_isEmpty (snd (tryWrite_each c vs d ?w1)) c \<and>
              \<not> isClosed (chans (snd (tryWrite_each c vs d ?w1)) c)"
  proof (rule Cons.IH)
    show "list (chans ?w1 c) = Some ?l1" by (simp add: upd_chan_def)
    show "Ring_inv ?l1" by (rule p(2))
    show "ring_size ?l1 + length vs \<le> length (arrs ?l1)" using sz p(4) Cons.prems(3) by simp
    show "Reader_isEmpty ?w1 c" using Cons.prems(4)
      by (simp add: Reader_isEmpty_def reader_pool_def upd_chan_def)
    show "Writer_isEmpty ?w1 c" using Cons.prems(5)
      by (simp add: Writer_isEmpty_def writer_pool_def upd_chan_def)
    show "\<not> isClosed (chans ?w1 c)" using Cons.prems(6) by (simp add: upd_chan_def)
  qed
  then show ?case using step p(3,4) by (auto simp: split_beta)
qed

lemma tryRead_times_buffered:
  assumes "list (chans w c) = Some l" "Ring_inv l" "n \<le> ring_size l" "Writer_isEmpty w c"
  shows "\<exists>l'. fst (tryRead_times c n d w)
                 = map (\<lambda>v. Return \<lparr>rv_closed = Some False, rv_reason = Value None,
                                      rv_ok = True, rv_value = v\<rparr>) (take n (Ring_contents l)) \<and>
              list (chans (snd (tryRead_times c n d w)) c) = Some l' \<and>
              Ring_inv l' \<and> Ring_contents l' = drop n (Ring_contents l)"
  using assms
proof (induction n arbitrary: w l)
  case 0
  then show ?case by simp
next
  case (Suc n)
  let ?l1 = "snd (Ring_pop l)"
  let ?w1 = "upd_chan c (\<lambda>rw. rw\<lparr>list := Some ?l1\<rparr>) w"
  from Suc.prems have ne: "ring_size l \<noteq> 0" by auto
  have step: "Chan_tryRead c no_opts d w =
      (Return \<lparr>rv_closed = Some False, rv_reason = Value None, rv_ok = True,
               rv_value = hd (Ring_contents l)\<rparr>, ?w1)"
    using Suc.prems ne by (intro Chan_tryRead_buffered) auto
  note p = Ring_pop_nonempty[OF Suc.prems(2) ne]
  have cne: "Ring_contents l \<noteq> []"
    using ne Ring_contents_length[of l] by auto
  have "\<exists>l'. fst (tryRead_times c n d ?w1)
                 = map (\<lambda>v. Return \<lparr>rv_closed = Some False, rv_reason = Value None,
                                      rv_ok = True, rv_value = v\<rparr>) (take n (Ring_contents ?l1)) \<and>
              list (chans (snd (tryRead_times c n d ?w1)) c) = Some l' \<and>
              Ring_inv l' \<and> Ring_contents l' = drop n (Ring_contents ?l1)"
  proof (rule Suc.IH)
    show "list (chans ?w1 c) = Some ?l1" by (simp add: upd_chan_def)
    show "Ring_inv ?l1" by (rule p(2))
    show "n \<le> ring_size ?l1" using p(5) Suc.prems(3) by simp
    show "Writer_isEmpty ?w1 c" using Suc.prems(4)
      by (simp add: Writer_isEmpty_def writer_pool_def upd_chan_def)
  qed
  then show ?case using step p(3) cne
    by (cases "Ring_contents l") (auto simp: split_beta drop_Suc)
qed

lemma Chan_new_fresh:
  assumes "0 < k"
  shows "list (Chan_new (int k)) = Some (Ring_new k)"
    and "\<not> isClosed (Chan_new (int k))"
    and "actions (r_actions (rw_reader (Chan_new (int k)))) = []"
    and "actions (w_actions (rw_writer (Chan_new (int k)))) = []"
  using assms by (simp_all add: Chan_new_def RW_new_def Actions_new_def)

section \<open>What the public operations keep\<close>

lemma world_inv_cong:
  assumes "world_inv w"
    and "\<And>c. list (chans w' c) = list (chans w c) \<and> reader_pool w' c = reader_pool w c
              \<and> writer_pool w' c = writer_pool w c"
  shows "world_inv w'"
  using assms
  by (simp add: world_inv_def pools_point_def readers_wait_on_empty_def Reader_isEmpty_def
        Chan_length_def RW_length_def)

lemma world_inv_chans: "world_inv w \<Longrightarrow> chans w' = chans w \<Longrightarrow> world_inv w'"
  by (rule world_inv_cong) (simp_all add: reader_pool_def writer_pool_def)

lemma world_inv_removal:
  assumes "world_inv w" "removal w w'"
  shows "world_inv w'"
proof -
  have "keys_point (reader_pool w' c) \<and> keys_point (writer_pool w' c) \<and>
        (\<not> Reader_isEmpty w' c \<longrightarrow> Chan_length w' c = 0)" for c
  proof -
    from assms(1) have kp: "keys_point (reader_pool w c)" "keys_point (writer_pool w c)"
      and rd: "\<not> Reader_isEmpty w c \<longrightarrow> Chan_length w c = 0"
      by (auto simp: world_inv_def pools_point_def readers_wait_on_empty_def)
    from assms(2) have l: "list (chans w' c) = list (chans w c)"
      and sr: "shrunk (reader_pool w c) (reader_pool w' c)"
      and sw: "shrunk (writer_pool w c) (writer_pool w' c)"
      by (auto simp: removal_def)
    from sr kp have r: "keys_point (reader_pool w' c)"
      "length (actions (reader_pool w' c)) \<le> length (actions (reader_pool w c))"
      by (auto simp: shrunk_def)
    from sw kp have w: "keys_point (writer_pool w' c)" by (auto simp: shrunk_def)
    from r(2) rd l have "\<not> Reader_isEmpty w' c \<longrightarrow> Chan_length w' c = 0"
      by (auto simp: Reader_isEmpty_def Actions_length_def Chan_length_def RW_length_def)
    with r(1) w show ?thesis by simp
  qed
  then show ?thesis
    by (simp add: world_inv_def pools_point_def readers_wait_on_empty_def)
qed

lemma removal_reader_empty:
  assumes "removal w w'" "world_inv w" "Reader_isEmpty w c"
  shows "Reader_isEmpty w' c"
proof -
  from assms(2) have "keys_point (reader_pool w c)" by (simp add: world_inv_def pools_point_def)
  with assms(1) have "length (actions (reader_pool w' c)) \<le> length (actions (reader_pool w c))"
    by (auto simp: removal_def shrunk_def)
  with assms(3) show ?thesis by (simp add: Reader_isEmpty_def Actions_length_def)
qed

lemma world_inv_set_list:
  assumes "world_inv w" "Reader_isEmpty w c"
  shows "world_inv (upd_chan c (\<lambda>rw. rw\<lparr>list := X\<rparr>) w)"
  using assms
  by (simp add: world_inv_def pools_point_def readers_wait_on_empty_def Reader_isEmpty_def
        Chan_length_def reader_pool_def writer_pool_def upd_chan_def)

lemma world_inv_list_push:
  assumes "world_inv w" "Reader_isEmpty w c"
  shows "world_inv (list_push c v w)"
proof (cases "list (chans w c)")
  case None
  then have "list_push c v w = w" by (simp add: list_push_def upd_chan_same)
  then show ?thesis using assms by simp
next
  case (Some l)
  then have "list_push c v w = upd_chan c (\<lambda>rw. rw\<lparr>list := Some (snd (Ring_push v l))\<rparr>) w"
    by (simp add: list_push_def upd_chan_def)
  then show ?thesis using assms by (simp add: world_inv_set_list)
qed

lemma removal_Writer_invoke: "removal w (snd (Writer_invoke d c w))"
proof (cases "Actions_length (writer_pool w c) = 0")
  case True
  then show ?thesis by (simp add: Writer_invoke_def removal_refl)
next
  case False
  let ?A = "writer_pool w c"
  let ?t = "if Actions_length ?A = 1 then Actions_pop ?A
            else Actions_removeBy (d mod Actions_length ?A) ?A"
  have i: "d mod Actions_length ?A < length (actions ?A)"
    using False by (simp add: Actions_length_def)
  have "shrunk ?A (snd ?t)" using i by (simp add: shrunk_pop shrunk_removeBy)
  then have r1: "removal w (set_writer_pool c (snd ?t) w)" by (rule removal_set_writer_pool)
  show ?thesis
  proof (cases "fst ?t")
    case None
    then show ?thesis using False r1 by (simp add: Writer_invoke_def split_beta Let_def)
  next
    case (Some a)
    let ?w1 = "set_writer_pool c (snd ?t) w"
    obtain x w2 where t: "WirteAction_invoke a ?w1 = (x, w2)"
      by (cases "WirteAction_invoke a ?w1")
    have "removal w (snd (WirteAction_invoke a ?w1))"
      by (rule removal_trans[OF r1 removal_WirteAction_invoke])
    then have "removal w w2" using t by simp
    then show ?thesis using False Some t
      by (cases x) (simp_all add: Writer_invoke_def split_beta Let_def)
  qed
qed

lemma removal_Reader_invoke: "removal w (snd (Reader_invoke d c val w))"
proof (cases "Actions_length (reader_pool w c) = 0")
  case True
  then show ?thesis by (simp add: Reader_invoke_def removal_refl)
next
  case False
  let ?A = "reader_pool w c"
  let ?t = "if Actions_length ?A = 1 then Actions_pop ?A
            else Actions_removeBy (d mod Actions_length ?A) ?A"
  have i: "d mod Actions_length ?A < length (actions ?A)"
    using False by (simp add: Actions_length_def)
  have "shrunk ?A (snd ?t)" using i by (simp add: shrunk_pop shrunk_removeBy)
  then have r1: "removal w (set_reader_pool c (snd ?t) w)" by (rule removal_set_reader_pool)
  show ?thesis
  proof (cases "fst ?t")
    case None
    then show ?thesis using False r1 by (simp add: Reader_invoke_def split_beta Let_def)
  next
    case (Some a)
    have "removal w (snd (ReadAction_invoke a val (set_reader_pool c (snd ?t) w)))"
      by (rule removal_trans[OF r1 removal_ReadAction_invoke])
    then show ?thesis using False Some by (simp add: Reader_invoke_def split_beta Let_def)
  qed
qed

lemma world_inv_RW_tryRead_direct:
  assumes "world_inv w"
  shows "world_inv (snd (RW_tryRead_direct d c w))"
proof -
  have "removal w (snd (RW_tryRead_direct d c w))"
    using removal_Writer_invoke[of w d c]
    by (auto simp: RW_tryRead_direct_def removal_refl split: prod.splits outcome.splits)
  with assms show ?thesis by (rule world_inv_removal)
qed

lemma world_inv_RW_tryRead:
  assumes "world_inv w"
  shows "world_inv (snd (RW_tryRead d c w))"
proof (cases "list (chans w c)")
  case None
  then show ?thesis using assms by (simp add: RW_tryRead_def world_inv_RW_tryRead_direct)
next
  case (Some l)
  let ?w1 = "upd_chan c (\<lambda>rw. rw\<lparr>list := Some (snd (Ring_pop l))\<rparr>) w"
  show ?thesis
  proof (cases "ir_done (fst (Ring_pop l))")
    case True
    then have "snd (Ring_pop l) = l" by (rule Ring_pop_done_same)
    then have "?w1 = w" using Some by (simp add: upd_chan_same)
    then show ?thesis using Some True assms
      by (simp add: RW_tryRead_def split_beta Let_def world_inv_RW_tryRead_direct)
  next
    case False
    then have "ring_size l \<noteq> 0" by (simp add: Ring_pop_done)
    then have "Chan_length w c \<noteq> 0"
      using Some by (simp add: Chan_length_def RW_length_def Ring_length_def)
    with assms have re: "Reader_isEmpty w c"
      by (auto simp: world_inv_def readers_wait_on_empty_def)
    have inv1: "world_inv ?w1" using assms re by (rule world_inv_set_list)
    have re1: "Reader_isEmpty ?w1 c"
      using re by (simp add: Reader_isEmpty_def reader_pool_def upd_chan_def)
    let ?w2 = "snd (Writer_invoke d c ?w1)"
    have r: "removal ?w1 ?w2" by (rule removal_Writer_invoke)
    have inv2: "world_inv ?w2" using inv1 r by (rule world_inv_removal)
    have re2: "Reader_isEmpty ?w2 c" using r inv1 re1 by (rule removal_reader_empty)
    have inv3: "world_inv (list_push c v ?w2)" for v
      using inv2 re2 by (rule world_inv_list_push)
    show ?thesis using Some False inv1 inv2 inv3
      by (auto simp: RW_tryRead_def split_beta Let_def split: outcome.splits)
  qed
qed

lemma world_inv_RW_tryWrite:
  assumes "world_inv w"
  shows "world_inv (snd (RW_tryWrite d c v w))"
proof (cases "isClosed (chans w c)")
  case True
  then show ?thesis using assms by (simp add: RW_tryWrite_def)
next
  case nc: False
  show ?thesis
  proof (cases "Reader_isEmpty w c")
    case True
    then show ?thesis using nc assms
      by (auto simp: RW_tryWrite_def split_beta world_inv_set_list split: option.splits)
  next
    case False
    have "world_inv (snd (Reader_invoke d c \<lparr>ir_done = False, ir_value = v\<rparr> w))"
      using assms removal_Reader_invoke by (rule world_inv_removal)
    then show ?thesis using nc False
      by (auto simp: RW_tryWrite_def split: prod.splits outcome.splits)
  qed
qed

lemma world_inv_Chan_tryRead:
  "world_inv w \<Longrightarrow> world_inv (snd (Chan_tryRead c opts d w))"
  using world_inv_RW_tryRead[of w d c]
  by (auto simp: Chan_tryRead_def split: prod.splits outcome.splits option.splits)

lemma world_inv_Chan_tryWrite:
  "world_inv w \<Longrightarrow> world_inv (snd (Chan_tryWrite c v opts d w))"
  using world_inv_RW_tryWrite[of w d c v]
  by (auto simp: Chan_tryWrite_def split: prod.splits outcome.splits option.splits)

section \<open>Parking\<close>

lemma chans_Reader_create: "chans (snd (Reader_create c cb w)) = chans w"
  by (simp add: Reader_create_def new_ReadAction_def split_beta Let_def split: option.splits)

lemma chans_Writer_create: "chans (snd (Writer_create c v cb w)) = chans w"
  by (simp add: Writer_create_def new_WirteAction_def split_beta Let_def split: option.splits)

lemma Reader_connect_pools:
  "list (chans (snd (Reader_connect c cb w)) c') = list (chans w c')"
  "writer_pool (snd (Reader_connect c cb w)) c' = writer_pool w c'"
  "reader_pool (snd (Reader_connect c cb w)) c' =
     (if c' = c then Actions_push (Some (fst (Reader_create c cb w))) (reader_pool w c)
      else reader_pool w c')"
  using chans_Reader_create[of c cb w]
  by (simp_all add: Reader_connect_def split_beta set_reader_pool_def upd_chan_def
        reader_pool_def writer_pool_def)

lemma Writer_connect_pools:
  "list (chans (snd (Writer_connect c v cb w)) c') = list (chans w c')"
  "reader_pool (snd (Writer_connect c v cb w)) c' = reader_pool w c'"
  "writer_pool (snd (Writer_connect c v cb w)) c' =
     (if c' = c then Actions_push (Some (fst (Writer_create c v cb w))) (writer_pool w c)
      else writer_pool w c')"
  using chans_Writer_create[of c v cb w]
  by (simp_all add: Writer_connect_def split_beta set_writer_pool_def upd_chan_def
        reader_pool_def writer_pool_def)

lemma world_inv_Reader_connect:
  assumes "world_inv w" "Chan_length w c = 0"
  shows "world_inv (snd (Reader_connect c cb w))"
  using assms
  by (simp add: world_inv_def pools_point_def readers_wait_on_empty_def Reader_isEmpty_def
        Chan_length_def RW_length_def Reader_connect_pools keys_point_push)

lemma world_inv_Writer_connect:
  assumes "world_inv w"
  shows "world_inv (snd (Writer_connect c v cb w))"
  using assms
  by (simp add: world_inv_def pools_point_def readers_wait_on_empty_def Reader_isEmpty_def
        Chan_length_def RW_length_def Writer_connect_pools keys_point_push)

lemma Chan_tryRead_not_ready:
  assumes "Chan_tryRead c opts d w = (Return val, w1)" "rv_closed val = Some False" "\<not> rv_ok val"
  shows "w1 = w \<and> Chan_length w c = 0"
proof -
  obtain x w2 where t: "RW_tryRead d c w = (x, w2)" by (cases "RW_tryRead d c w")
  from assms t obtain r where "x = Return (Some r)" "ir_done r" "w1 = w2"
    by (auto simp: Chan_tryRead_def split: if_splits outcome.splits option.splits)
  with t RW_tryRead_noResult[of d c w r w2] show ?thesis
    by (simp add: Chan_length_def)
qed

lemma world_inv_Chan_read:
  assumes "world_inv w"
  shows "world_inv (snd (Chan_read c opts d w))"
proof -
  obtain x w1 where t: "Chan_tryRead c opts d w = (x, w1)" by (cases "Chan_tryRead c opts d w")
  have inv1: "world_inv w1" using world_inv_Chan_tryRead[OF assms, of c opts d] t by simp
  show ?thesis
  proof (cases x)
    case (Throw e)
    then show ?thesis using t inv1 by (simp add: Chan_read_def)
  next
    case (Return val)
    show ?thesis
    proof (cases "rv_closed val \<noteq> Some False \<or> rv_ok val")
      case True
      then show ?thesis using t Return inv1 by (auto simp: Chan_read_def)
    next
      case False
      then have "w1 = w \<and> Chan_length w c = 0"
        using Chan_tryRead_not_ready[of c opts d w val w1] t Return by simp
      then have len: "Chan_length (snd (new_promise w1)) c = 0"
        by (simp add: Chan_length_def chans_new_promise)
      have "world_inv (snd (new_promise w1))"
        using inv1 by (rule world_inv_chans) (rule chans_new_promise)
      then have "world_inv (snd (Reader_connect c cb (snd (new_promise w1))))" for cb
        using len by (rule world_inv_Reader_connect)
      then have "world_inv (addEventListener s l (snd (Reader_connect c cb (snd (new_promise w1)))))"
        for cb s l
        by (rule world_inv_chans) (rule chans_addEventListener)
      then show ?thesis using t Return False
        by (simp add: Chan_read_def RW_read_def split_beta)
    qed
  qed
qed

lemma world_inv_Chan_write:
  assumes "world_inv w"
  shows "world_inv (snd (Chan_write c v opts d w))"
proof -
  obtain x w1 where t: "Chan_tryWrite c v opts d w = (x, w1)"
    by (cases "Chan_tryWrite c v opts d w")
  have inv1: "world_inv w1" using world_inv_Chan_tryWrite[OF assms, of c v opts d] t by simp
  have "world_inv (snd (new_promise w1))"
    using inv1 by (rule world_inv_chans) (rule chans_new_promise)
  then have "world_inv (snd (Writer_connect c v cb (snd (new_promise w1))))" for cb
    by (rule world_inv_Writer_connect)
  then have "world_inv (addEventListener s l (snd (Writer_connect c v cb (snd (new_promise w1)))))"
    for cb s l
    by (rule world_inv_chans) (rule chans_addEventListener)
  then show ?thesis using t inv1
    by (cases x) (auto simp: Chan_write_def RW_write_def split_beta)
qed

section \<open>Closing returns\<close>

lemma pools_point_removal: "pools_point w \<Longrightarrow> removal w w' \<Longrightarrow> pools_point w'"
  by (simp add: pools_point_def removal_def shrunk_def)

lemma Writer_close_loop_returns:
  assumes "pools_point w"
  shows "\<exists>out w'. Writer_close_loop c err i w = Some (out, w') \<and> removal w w'"
  using assms
proof (induction "length (actions (writer_pool w c)) - i" arbitrary: i w rule: less_induct)
  case less
  show ?case
  proof (cases "i < length (actions (writer_pool w c))")
    case False
    then show ?thesis by (subst Writer_close_loop.simps) (simp add: removal_refl)
  next
    case True
    show ?thesis
    proof (cases "actions (writer_pool w c) ! i")
      case None
      then show ?thesis using True by (subst Writer_close_loop.simps) (simp add: removal_refl)
    next
      case (Some a)
      obtain x w1 where t: "WirteAction_close a err w = (x, w1)"
        by (cases "WirteAction_close a err w")
      have r: "removal w w1" using removal_WirteAction_close[of w a err] t by simp
      show ?thesis
      proof (cases x)
        case (Throw e)
        then show ?thesis using True Some t r by (subst Writer_close_loop.simps) simp
      next
        case (Return u)
        have pp: "pools_point w1" using less.prems r by (rule pools_point_removal)
        have "length (actions (writer_pool w1 c)) \<le> length (actions (writer_pool w c))"
          using r less.prems by (simp add: removal_def shrunk_def pools_point_def)
        then have "length (actions (writer_pool w1 c)) - (i + 1) < length (actions (writer_pool w c)) - i"
          using True by simp
        from less.hyps[OF this pp] obtain out w' where
          l: "Writer_close_loop c err (i + 1) w1 = Some (out, w')" and r': "removal w1 w'"
          by blast
        have "Writer_close_loop c err i w = Some (out, w')"
          using True Some t Return l by (subst Writer_close_loop.simps) simp
        then show ?thesis using removal_trans[OF r r'] by simp
      qed
    qed
  qed
qed

lemma Reader_close_loop_returns:
  assumes "pools_point w"
  shows "\<exists>out w'. Reader_close_loop c i w = Some (out, w') \<and> removal w w'"
  using assms
proof (induction "length (actions (reader_pool w c)) - i" arbitrary: i w rule: less_induct)
  case less
  show ?case
  proof (cases "i < length (actions (reader_pool w c))")
    case False
    then show ?thesis by (subst Reader_close_loop.simps) (simp add: removal_refl)
  next
    case True
    show ?thesis
    proof (cases "actions (reader_pool w c) ! i")
      case None
      then show ?thesis using True by (subst Reader_close_loop.simps) (simp add: removal_refl)
    next
      case (Some a)
      obtain x w1 where t: "ReadAction_invoke a noResult w = (x, w1)"
        by (cases "ReadAction_invoke a noResult w")
      have r: "removal w w1" using removal_ReadAction_invoke[of w a noResult] t by simp
      show ?thesis
      proof (cases x)
        case (Throw e)
        then show ?thesis using True Some t r by (subst Reader_close_loop.simps) simp
      next
        case (Return u)
        have pp: "pools_point w1" using less.prems r by (rule pools_point_removal)
        have "length (actions (reader_pool w1 c)) \<le> length (actions (reader_pool w c))"
          using r less.prems by (simp add: removal_def shrunk_def pools_point_def)
        then have "length (actions (reader_pool w1 c)) - (i + 1) < length (actions (reader_pool w c)) - i"
          using True by simp
        from less.hyps[OF this pp] obtain out w' where
          l: "Reader_close_loop c (i + 1) w1 = Some (out, w')" and r': "removal w1 w'"
          by blast
        have "Reader_close_loop c i w = Some (out, w')"
          using True Some t Return l by (subst Reader_close_loop.simps) simp
        then show ?thesis using removal_trans[OF r r'] by simp
      qed
    qed
  qed
qed

lemma world_inv_flag:
  assumes "world_inv w"
    and "\<And>rw. list (f rw) = list rw \<and> r_actions (rw_reader (f rw)) = r_actions (rw_reader rw)
               \<and> w_actions (rw_writer (f rw)) = w_actions (rw_writer rw)"
  shows "world_inv (upd_chan c f w)"
  using assms(1)
  by (rule world_inv_cong) (simp add: upd_chan_def reader_pool_def writer_pool_def assms(2))

lemma Writer_close_returns:
  assumes "world_inv w"
  shows "\<exists>out w'. Writer_close c w = Some (out, w') \<and> world_inv w'"
proof (cases "w_closed (rw_writer (chans w c))")
  case True
  then show ?thesis using assms by (simp add: Writer_close_def)
next
  case False
  let ?w1 = "upd_chan c (\<lambda>rw. rw\<lparr>rw_writer := (rw_writer rw)\<lparr>w_closed := True\<rparr>\<rparr>) w"
  have inv1: "world_inv ?w1" using assms by (rule world_inv_flag) simp
  then have pp: "pools_point ?w1" by (simp add: world_inv_def)
  from Writer_close_loop_returns[OF pp, of c "ChannelError ''channel already closed''" 0]
  obtain out w2 where l: "Writer_close_loop c (ChannelError ''channel already closed'') 0 ?w1
      = Some (out, w2)" and r: "removal ?w1 w2"
    by blast
  have inv2: "world_inv w2" using inv1 r by (rule world_inv_removal)
  have "removal w2 (set_writer_pool c (Actions_clear (writer_pool w2 c)) w2)"
    by (rule removal_set_writer_pool) (rule shrunk_clear)
  with inv2 have inv3: "world_inv (set_writer_pool c (Actions_clear (writer_pool w2 c)) w2)"
    by (rule world_inv_removal)
  show ?thesis using False l inv1 inv2 inv3
    by (cases out) (auto simp: Writer_close_def Let_def)
qed

lemma Reader_close_returns:
  assumes "world_inv w"
  shows "\<exists>out w'. Reader_close c w = Some (out, w') \<and> world_inv w'"
proof (cases "r_closed (rw_reader (chans w c))")
  case True
  then show ?thesis using assms by (simp add: Reader_close_def)
next
  case False
  let ?w1 = "upd_chan c (\<lambda>rw. rw\<lparr>rw_reader := (rw_reader rw)\<lparr>r_closed := True\<rparr>\<rparr>) w"
  have inv1: "world_inv ?w1" using assms by (rule world_inv_flag) simp
  then have pp: "pools_point ?w1" by (simp add: world_inv_def)
  from Reader_close_loop_returns[OF pp, of c 0]
  obtain out w2 where l: "Reader_close_loop c 0 ?w1 = Some (out, w2)" and r: "removal ?w1 w2"
    by blast
  have inv2: "world_inv w2" using inv1 r by (rule world_inv_removal)
  have "removal w2 (set_reader_pool c (Actions_clear (reader_pool w2 c)) w2)"
    by (rule removal_set_reader_pool) (rule shrunk_clear)
  with inv2 have inv3: "world_inv (set_reader_pool c (Actions_clear (reader_pool w2 c)) w2)"
    by (rule world_inv_removal)
  show ?thesis using False l inv1 inv2 inv3
    by (cases out) (auto simp: Reader_close_def Let_def)
qed

lemma RW_close_returns:
  assumes "world_inv w"
  shows "\<exists>out w'. RW_close c w = Some (out, w') \<and> world_inv w'"
proof (cases "isClosed (chans w c)")
  case True
  then show ?thesis using assms by (simp add: RW_close_def)
next
  case False
  let ?w1 = "upd_chan c (\<lambda>rw. rw\<lparr>isClosed := True\<rparr>) w"
  have inv1: "world_inv ?w1" using assms by (rule world_inv_flag) simp
  from Writer_close_returns[OF inv1, of c] obtain o2 w2 where
    c2: "Writer_close c ?w1 = Some (o2, w2)" and inv2: "world_inv w2" by blast
  from Reader_close_returns[OF inv2, of c] obtain o3 w3 where
    c3: "Reader_close c w2 = Some (o3, w3)" and inv3: "world_inv w3" by blast
  have inv4: "world_inv (settle p ResolvedNull (upd_chan c (\<lambda>rw. rw\<lparr>rw_completer := None\<rparr>) w3))"
    for p
    by (rule world_inv_chans[OF _ chans_settle]) (rule world_inv_flag[OF inv3], simp)
  show ?thesis using False c2 c3 inv2 inv3 inv4
    by (cases o2; cases o3) (auto simp: RW_close_def split: option.splits)
qed

section \<open>Cases and select\<close>

lemma world_inv_Case_reset: "world_inv w \<Longrightarrow> world_inv (Case_reset ch w)"
  by (cases ch) (auto elim: world_inv_chans)

lemma chans_fold_Case_reset: "chans (fold Case_reset cs w) = chans w"
proof (induction cs arbitrary: w)
  case Nil
  show ?case by simp
next
  case (Cons ch cs)
  show ?case using Cons.IH[of "Case_reset ch w"] by (cases ch) simp_all
qed

lemma world_inv_Case_tryInvoke:
  assumes "world_inv w"
  shows "world_inv (snd (Case_tryInvoke ch slnt d w))"
proof (cases ch)
  case (ReadCase k c)
  have "world_inv (snd (RW_tryRead d c w))" using assms by (rule world_inv_RW_tryRead)
  then show ?thesis using ReadCase
    by (auto simp: split: prod.splits outcome.splits option.splits elim: world_inv_chans)
next
  case (WriteCase k c v)
  have "world_inv (snd (Chan_tryWrite c v \<lparr>signal = None, silent = slnt\<rparr> d w))"
    using assms by (rule world_inv_Chan_tryWrite)
  then show ?thesis using WriteCase
    by (auto simp: split: prod.splits outcome.splits option.splits elim: world_inv_chans)
qed

lemma RW_tryWrite_open:
  "\<not> isClosed (chans w c) \<Longrightarrow> fst (RW_tryWrite d c v w) \<noteq> Return None"
  by (auto simp: RW_tryWrite_def split_beta split: option.splits prod.splits outcome.splits)

lemma Case_tryInvoke_not_ready:
  assumes "Case_tryInvoke ch slnt d w = (Return False, w1)"
  shows "w1 = w \<and> (\<forall>k c. ch = ReadCase k c \<longrightarrow> Chan_length w c = 0)"
proof (cases ch)
  case (ReadCase k c)
  obtain x w2 where t: "RW_tryRead d c w = (x, w2)" by (cases "RW_tryRead d c w")
  from assms ReadCase t obtain r where "x = Return (Some r)" "ir_done r" "w1 = w2"
    by (auto split: outcome.splits option.splits if_splits)
  with t RW_tryRead_noResult[of d c w r w2] ReadCase show ?thesis
    by (simp add: Chan_length_def)
next
  case (WriteCase k c v)
  obtain x w2 where t: "RW_tryWrite d c v w = (x, w2)" by (cases "RW_tryWrite d c v w")
  have "w1 = w"
  proof (cases "isClosed (chans w c)")
    case True
    then show ?thesis using assms WriteCase
      by (auto simp: Chan_tryWrite_def signal_aborted_def RW_tryWrite_closed split: if_splits)
  next
    case False
    from assms WriteCase t RW_tryWrite_open[OF False, of d v]
    have "x = Return (Some False)" "w1 = w2"
      by (auto simp: Chan_tryWrite_def signal_aborted_def
               split: outcome.splits option.splits if_splits)
    with t RW_tryWrite_full[of d c v w w2] show ?thesis by simp
  qed
  then show ?thesis using WriteCase by simp
qed

lemma world_inv_try_all:
  "world_inv w \<Longrightarrow> world_inv (snd (try_all cs slnt rnd i w))"
proof (induction cs arbitrary: i w)
  case Nil
  then show ?case by simp
next
  case (Cons ch cs)
  have inv1: "world_inv (snd (Case_tryInvoke ch slnt (rnd i) w))"
    using Cons.prems by (rule world_inv_Case_tryInvoke)
  show ?case using inv1 Cons.IH[OF inv1, of "i + 1"]
    by (auto split: prod.splits outcome.splits bool.splits)
qed

lemma try_all_none_ready:
  assumes "try_all cs slnt rnd i w = (Return None, w1)"
  shows "w1 = w \<and> (\<forall>k c. ReadCase k c \<in> set cs \<longrightarrow> Chan_length w c = 0)"
  using assms
proof (induction cs arbitrary: i w)
  case Nil
  then show ?case by simp
next
  case (Cons ch cs)
  obtain x w2 where t: "Case_tryInvoke ch slnt (rnd i) w = (x, w2)"
    by (cases "Case_tryInvoke ch slnt (rnd i) w")
  from Cons.prems t have x: "x = Return False" and rest: "try_all cs slnt rnd (i + 1) w2 = (Return None, w1)"
    by (auto split: outcome.splits bool.splits)
  from Case_tryInvoke_not_ready[of ch slnt "rnd i" w w2] t x
  have w2: "w2 = w" and h: "\<forall>k c. ch = ReadCase k c \<longrightarrow> Chan_length w c = 0" by auto
  from Cons.IH[OF rest] w2 h show ?case by auto
qed

lemma Chan_length_Case_invoke:
  "Chan_length (snd (Case_invoke ch cb w)) c = Chan_length w c"
  by (cases ch)
     (simp_all add: Chan_length_def RW_length_def RW_read_def RW_write_def split_beta
        Reader_connect_pools Writer_connect_pools)

lemma world_inv_Case_invoke:
  assumes "world_inv w" "\<forall>k c. ch = ReadCase k c \<longrightarrow> Chan_length w c = 0"
  shows "world_inv (snd (Case_invoke ch cb w))"
  using assms
  by (cases ch)
     (simp_all add: RW_read_def RW_write_def split_beta world_inv_Reader_connect
        world_inv_Writer_connect)

lemma world_inv_arm_all:
  assumes "world_inv w" "\<forall>k c. ReadCase k c \<in> set cs \<longrightarrow> Chan_length w c = 0"
  shows "world_inv (snd (arm_all cb cs w))"
  using assms
proof (induction cs arbitrary: w)
  case Nil
  then show ?case by simp
next
  case (Cons ch cs)
  let ?w1 = "snd (Case_invoke ch cb w)"
  have inv1: "world_inv ?w1" using Cons.prems by (intro world_inv_Case_invoke) auto
  have "\<forall>k c. ReadCase k c \<in> set cs \<longrightarrow> Chan_length ?w1 c = 0"
    using Cons.prems(2) by (simp add: Chan_length_Case_invoke)
  from Cons.IH[OF inv1 this] show ?case by (simp add: split_beta)
qed

lemma world_inv_selectChan:
  assumes "world_inv w"
  shows "world_inv (snd (selectChan opts rnd w))"
proof (cases "signal_aborted (sel_signal opts) w")
  case True
  then show ?thesis using assms by (simp add: selectChan_def)
next
  case na: False
  let ?cases = "case sel_chans opts of None \<Rightarrow> [] | Some cs \<Rightarrow> List.map_filter id cs"
  show ?thesis
  proof (cases "?cases = []")
    case True
    have "world_inv (addEventListener s l (snd (new_promise w)))" for s l
      using assms by (rule world_inv_chans) (simp add: chans_addEventListener chans_new_promise)
    then show ?thesis using na True assms
      by (auto simp: selectChan_def split_beta split: option.splits)
  next
    case False
    let ?w1 = "fold Case_reset ?cases w"
    let ?sh = "shuffle rnd ?cases (length ?cases)"
    have inv1: "world_inv ?w1" using assms by (rule world_inv_chans) (rule chans_fold_Case_reset)
    obtain x w2 where t: "try_all ?sh (sel_silent opts) rnd (length ?cases) ?w1 = (x, w2)"
      by (cases "try_all ?sh (sel_silent opts) rnd (length ?cases) ?w1")
    have inv2: "world_inv w2"
      using world_inv_try_all[OF inv1, of ?sh "sel_silent opts" rnd "length ?cases"] t by simp
    have sel: "selectChan opts rnd w =
      (case (x, w2) of
         (Throw e, w2) \<Rightarrow> (Throw e, w2)
       | (Return (Some ch), w2) \<Rightarrow> (Return (SelCase ch), w2)
       | (Return None, w2) \<Rightarrow>
           (if sel_default opts then (Return SelNull, w2)
            else
              let (p, w3) = new_promise w2;
                  (cns, w4) = arm_all (SelectCb p) ?sh w3;
                  w5 = w4\<lparr>selects := (selects w4)
                         (p := \<lparr>env_conns = cns, env_silent = sel_silent opts,
                                env_signal = sel_signal opts\<rparr>)\<rparr>
              in (Return (SelPromise p), addEventListener (sel_signal opts) (SelectOnAbort p) w5)))"
      using na False t by (simp add: selectChan_def Let_def)
    show ?thesis
    proof (cases x)
      case (Throw e)
      then show ?thesis using sel inv2 by simp
    next
      case (Return r)
      show ?thesis
      proof (cases r)
        case (Some ch)
        then show ?thesis using sel Return inv2 by simp
      next
        case None
        from try_all_none_ready[of ?sh "sel_silent opts" rnd "length ?cases" ?w1 w2] t Return None
        have nr: "\<forall>k c. ReadCase k c \<in> set ?sh \<longrightarrow> Chan_length w2 c = 0" by simp
        let ?w3 = "snd (new_promise w2)"
        have inv3: "world_inv ?w3" using inv2 by (rule world_inv_chans) (rule chans_new_promise)
        have nr3: "\<forall>k c. ReadCase k c \<in> set ?sh \<longrightarrow> Chan_length ?w3 c = 0"
          using nr by (simp add: Chan_length_def chans_new_promise)
        have inv4: "world_inv (snd (arm_all cb ?sh ?w3))" for cb
          using inv3 nr3 by (rule world_inv_arm_all)
        have inv5: "world_inv (addEventListener s l
                      ((snd (arm_all cb ?sh ?w3))\<lparr>selects := X\<rparr>))" for cb s l X
          using inv4[of cb] by (rule world_inv_chans) (simp add: chans_addEventListener)
        show ?thesis using sel Return None inv2 inv5
          by (simp add: split_beta Let_def)
      qed
    qed
  qed
qed

section \<open>Every public operation\<close>

lemma world_inv_world0: "world_inv (world0 bufs)"
  by (simp add: world_inv_def pools_point_def readers_wait_on_empty_def world0_def
        Chan_new_def RW_new_def reader_pool_def writer_pool_def keys_point_def
        Reader_isEmpty_def Actions_length_def Actions_new_def)

lemma world_inv_Chan_wait: "world_inv w \<Longrightarrow> world_inv (snd (Chan_wait c w))"
proof -
  assume a: "world_inv w"
  have "world_inv (upd_chan c (\<lambda>rw. rw\<lparr>rw_completer := Some p\<rparr>) (snd (new_promise w)))" for p
    by (rule world_inv_flag[OF world_inv_chans[OF a chans_new_promise]]) simp
  then show ?thesis using a
    by (auto simp: Chan_wait_def RW_wait_def split_beta split: option.splits)
qed

lemma perform_keeps:
  assumes "world_inv w" "\<not> arms_beside_buffer x w"
  shows "\<exists>w'. perform x w = Some w' \<and> world_inv w'"
proof (cases x)
  case (TryRead c opts d)
  then show ?thesis using assms by (simp add: world_inv_Chan_tryRead)
next
  case (TryWrite c v opts d)
  then show ?thesis using assms by (simp add: world_inv_Chan_tryWrite)
next
  case (Read c opts d)
  then show ?thesis using assms by (simp add: world_inv_Chan_read)
next
  case (Write c v opts d)
  then show ?thesis using assms by (simp add: world_inv_Chan_write)
next
  case (Close c)
  then show ?thesis using RW_close_returns[OF assms(1), of c] by (auto simp: Chan_close_def)
next
  case (Wait c)
  then show ?thesis using assms by (simp add: world_inv_Chan_wait)
next
  case (Reset ch)
  then show ?thesis using assms by (simp add: world_inv_Case_reset)
next
  case (TryInvoke ch slnt d)
  then show ?thesis using assms by (simp add: world_inv_Case_tryInvoke)
next
  case (Arm ch cb)
  then have "\<forall>k c. ch = ReadCase k c \<longrightarrow> Chan_length w c = 0" using assms(2) by auto
  then show ?thesis using Arm assms(1) by (simp add: world_inv_Case_invoke)
next
  case (Disconet cn)
  then show ?thesis using assms(1) by (simp add: conn_disconet_def)
next
  case (Disconnect cn)
  then show ?thesis using world_inv_removal[OF assms(1) removal_conn_disconnect] by simp
next
  case (Select opts rnd)
  then show ?thesis using assms by (simp add: world_inv_selectChan)
next
  case (Abort s rsn)
  then show ?thesis using world_inv_removal[OF assms(1) removal_abort] by simp
qed

lemma run_keeps:
  assumes "world_inv w" "careful xs w"
  shows "\<exists>w'. run xs w = Some w' \<and> world_inv w'"
  using assms
proof (induction xs arbitrary: w)
  case Nil
  then show ?case by simp
next
  case (Cons x xs)
  from Cons.prems(2) have nb: "\<not> arms_beside_buffer x w" by simp
  from perform_keeps[OF Cons.prems(1) nb]
  obtain w1 where p: "perform x w = Some w1" and inv1: "world_inv w1" by auto
  from Cons.prems(2) p have "careful xs w1" by simp
  from Cons.IH[OF inv1 this] obtain w' where "run xs w1 = Some w'" "world_inv w'"
    by auto
  with p show ?case by simp
qed

section \<open>The coherence of the waiter set\<close>

text \<open>
  Claim C9, as amended. The index coherence of the waiter set together with "no element
  is stored twice" holds for the empty set and is kept by \<open>push\<close> of an element that
  is not stored yet, by \<open>pop\<close>, by \<open>removeBy\<close> with an index inside the array, by
  \<open>remove\<close> and by \<open>clear\<close>; and \<open>remove\<close> of an element that is not stored changes
  nothing.
\<close>

theorem Actions_inv_preserved:
  "Actions_inv (Actions_new :: 'a Actions) \<and>
   (Actions_inv A \<longrightarrow>
      (val \<notin> set (actions A) \<longrightarrow> Actions_inv (Actions_push val A)) \<and>
      Actions_inv (snd (Actions_pop A)) \<and>
      (i < Actions_length A \<longrightarrow> Actions_inv (snd (Actions_removeBy i A))) \<and>
      Actions_inv (Actions_remove val A) \<and>
      Actions_inv (Actions_clear A) \<and>
      (val \<notin> set (actions A) \<longrightarrow> Actions_remove val A = A))"
proof (intro conjI impI)
  show "Actions_inv (Actions_new :: 'a Actions)" by (rule Actions_inv_new)
next
  assume "Actions_inv A" "val \<notin> set (actions A)"
  then show "Actions_inv (Actions_push val A)" by (rule Actions_inv_push)
next
  assume "Actions_inv A"
  then show "Actions_inv (snd (Actions_pop A))" by (rule Actions_inv_pop)
next
  assume "Actions_inv A" "i < Actions_length A"
  then show "Actions_inv (snd (Actions_removeBy i A))"
    by (simp add: Actions_inv_removeBy Actions_length_def)
next
  assume "Actions_inv A"
  then show "Actions_inv (Actions_remove val A)" by (rule Actions_inv_remove)
next
  show "Actions_inv (Actions_clear A)" by (rule Actions_inv_clear)
next
  assume "Actions_inv A" "val \<notin> set (actions A)"
  then have "keys A val = None" by (rule Actions_inv_absent)
  then show "Actions_remove val A = A" by (rule Actions_remove_absent)
qed

theorem Actions_inv_preserved_witness:
  "Actions_inv (Actions_push (Some 2) (Actions_push (Some (1::nat)) Actions_new)) \<and>
   Some 7 \<notin> set (actions (Actions_push (Some 2) (Actions_push (Some (1::nat)) Actions_new))) \<and>
   0 < Actions_length (Actions_push (Some 2) (Actions_push (Some (1::nat)) Actions_new)) \<and>
   Actions_inv (Actions_push (Some 7) (Actions_push (Some 2) (Actions_push (Some (1::nat)) Actions_new))) \<and>
   Actions_inv (snd (Actions_pop (Actions_push (Some 2) (Actions_push (Some (1::nat)) Actions_new)))) \<and>
   Actions_inv (snd (Actions_removeBy 0 (Actions_push (Some 2) (Actions_push (Some (1::nat)) Actions_new)))) \<and>
   Actions_inv (Actions_remove (Some 7) (Actions_push (Some 2) (Actions_push (Some (1::nat)) Actions_new))) \<and>
   Actions_remove (Some 7) (Actions_push (Some 2) (Actions_push (Some (1::nat)) Actions_new))
     = Actions_push (Some 2) (Actions_push (Some (1::nat)) Actions_new)"
proof -
  let ?A = "Actions_push (Some 2) (Actions_push (Some (1::nat)) Actions_new)"
  have inv: "Actions_inv ?A"
    by (auto simp: Actions_inv_def index_coherent_def Actions_push_def Actions_new_def)
  have absent: "Some 7 \<notin> set (actions ?A)"
    by (simp add: Actions_push_def Actions_new_def)
  have len: "0 < Actions_length ?A"
    by (simp add: Actions_length_def Actions_push_def)
  show ?thesis
    using Actions_inv_preserved[of ?A "Some 7" 0] inv absent len by blast
qed

text \<open>
  The coherence as the specification words it allows an element stored twice, and
  \<open>pop\<close> then breaks it: after \<open>push(a); push(a)\<close> it holds, after the \<open>pop()\<close> that
  follows the array still holds \<open>a\<close> and the index has no entry for it.
\<close>

theorem index_coherent_pop_counterexample:
  "index_coherent (Actions_push (Some (1::nat)) (Actions_push (Some 1) Actions_new)) \<and>
   \<not> index_coherent (snd (Actions_pop (Actions_push (Some (1::nat)) (Actions_push (Some 1) Actions_new))))"
  by (simp add: index_coherent_def Actions_push_def Actions_new_def Actions_pop_def Actions__pop_def)

section \<open>Definitions unfolded when a concrete world is evaluated\<close>

lemmas container_defs =
  js_get_def js_set_def noResult_def Ring_new_def Ring_length_def Ring_capacity_def
  Ring_push_def Ring_pop_def Ring_pop_true_def Actions_new_def Actions_length_def
  Actions__pop_def Actions_pop_def Actions_removeBy_def Actions_remove_def
  Actions_clear_def Actions_push_def

lemmas world_defs =
  upd_chan_def reader_pool_def writer_pool_def set_reader_pool_def set_writer_pool_def
  settle_def new_promise_def addEventListener_def removeEventListener_def
  signal_aborted_def signal_reason_def no_opts_def world0_def

lemmas rw_defs =
  Reader_disconnect_def ReadAction_disconnect_def Writer_disconnect_def
  WirteAction_disconnect_def conn_disconet_def select_cleanup_def ReadAction_invoke_def
  WirteAction_invoke_def WirteAction_close_def new_ReadAction_def Reader_create_def
  Reader_isEmpty_def Reader_invoke_def Reader_close_def Reader_connect_def
  new_WirteAction_def Writer_create_def Writer_isEmpty_def Writer_invoke_def
  Writer_close_def Writer_connect_def RW_new_def list_push_def RW_tryRead_direct_def
  RW_tryRead_def RW_read_def RW_tryWrite_def RW_write_def RW_close_def RW_wait_def
  RW_length_def RW_capacity_def

lemmas chan_defs =
  Chan_new_def Chan_tryRead_def Chan_read_def Chan_tryWrite_def Chan_write_def
  Chan_close_def Chan_wait_def Chan_isClosed_def Chan_length_def Chan_capacity_def
  asyncIterator_body_def Chan_readCase_def Chan_writeCase_def ReadCase_read_def
  WriteCase_write_def selectChan_def abort_def

section \<open>Claims about single calls\<close>

text \<open>
  Claim C10. When \<open>tryRead\<close> reports that nothing is ready (the engine returns
  \<open>noResult\<close>, the channel returns \<open>{closed: false, ok: false}\<close>) or \<open>tryWrite\<close> reports
  a full channel (the engine returns \<open>false\<close>, the channel returns \<open>{ok: false}\<close> with
  no \<open>error\<close>), the state after the call is the state before it: the whole world,
  and with it the buffer's array, offset and size, both pools and the closed flag.
\<close>

theorem try_not_ready_unchanged:
  "(fst (RW_tryRead d c w) = Return (Some r) \<and> ir_done r \<longrightarrow> snd (RW_tryRead d c w) = w) \<and>
   (fst (RW_tryWrite d c v w) = Return (Some False) \<longrightarrow> snd (RW_tryWrite d c v w) = w) \<and>
   (fst (Chan_tryRead c opts d w) = Return rv \<and> rv_closed rv = Some False \<and> \<not> rv_ok rv
      \<longrightarrow> snd (Chan_tryRead c opts d w) = w) \<and>
   (fst (Chan_tryWrite c v opts d w) = Return wv \<and> wv_ok wv = Some False \<and> \<not> wv_error wv
      \<longrightarrow> snd (Chan_tryWrite c v opts d w) = w)"
proof (intro conjI impI)
  assume "fst (RW_tryRead d c w) = Return (Some r) \<and> ir_done r"
  then show "snd (RW_tryRead d c w) = w"
    using RW_tryRead_noResult[of d c w r "snd (RW_tryRead d c w)"]
    by (cases "RW_tryRead d c w") simp
next
  assume "fst (RW_tryWrite d c v w) = Return (Some False)"
  then show "snd (RW_tryWrite d c v w) = w"
    using RW_tryWrite_full[of d c v w "snd (RW_tryWrite d c v w)"]
    by (cases "RW_tryWrite d c v w") simp
next
  assume a: "fst (Chan_tryRead c opts d w) = Return rv \<and> rv_closed rv = Some False \<and> \<not> rv_ok rv"
  obtain x w1 where t: "RW_tryRead d c w = (x, w1)" by (cases "RW_tryRead d c w")
  from a t obtain val where "x = Return (Some val)" "ir_done val"
    and s: "snd (Chan_tryRead c opts d w) = w1"
    by (auto simp: Chan_tryRead_def split: if_splits outcome.splits option.splits)
  with t RW_tryRead_noResult[of d c w val w1] show "snd (Chan_tryRead c opts d w) = w"
    by simp
next
  assume a: "fst (Chan_tryWrite c v opts d w) = Return wv \<and> wv_ok wv = Some False \<and> \<not> wv_error wv"
  obtain x w1 where t: "RW_tryWrite d c v w = (x, w1)" by (cases "RW_tryWrite d c v w")
  from a t have "x = Return (Some False)" and s: "snd (Chan_tryWrite c v opts d w) = w1"
    by (auto simp: Chan_tryWrite_def split: if_splits outcome.splits option.splits)
  with t RW_tryWrite_full[of d c v w w1] show "snd (Chan_tryWrite c v opts d w) = w"
    by simp
qed

theorem try_not_ready_unchanged_witness:
  "fst (RW_tryRead 0 0 (world0 (\<lambda>c. 0) :: nat world)) = Return (Some noResult) \<and>
   ir_done (noResult :: nat IteratorResult) \<and>
   snd (RW_tryRead 0 0 (world0 (\<lambda>c. 0) :: nat world)) = world0 (\<lambda>c. 0) \<and>
   fst (RW_tryWrite 0 0 (Some 1) (world0 (\<lambda>c. 0) :: nat world)) = Return (Some False) \<and>
   snd (RW_tryWrite 0 0 (Some 1) (world0 (\<lambda>c. 0) :: nat world)) = world0 (\<lambda>c. 0) \<and>
   fst (Chan_tryRead 0 no_opts 0 (world0 (\<lambda>c. 0) :: nat world))
     = Return \<lparr>rv_closed = Some False, rv_reason = Value None, rv_ok = False, rv_value = None\<rparr> \<and>
   snd (Chan_tryRead 0 no_opts 0 (world0 (\<lambda>c. 0) :: nat world)) = world0 (\<lambda>c. 0) \<and>
   fst (Chan_tryWrite 0 (Some 1) no_opts 0 (world0 (\<lambda>c. 0) :: nat world))
     = Return \<lparr>wv_ok = Some False, wv_error = False, wv_reason = Value None\<rparr> \<and>
   snd (Chan_tryWrite 0 (Some 1) no_opts 0 (world0 (\<lambda>c. 0) :: nat world)) = world0 (\<lambda>c. 0)"
proof -
  let ?w = "world0 (\<lambda>c. 0) :: nat world"
  have r: "fst (RW_tryRead 0 0 ?w) = Return (Some noResult)"
    by (simp add: container_defs world_defs rw_defs chan_defs)
  have d: "ir_done (noResult :: nat IteratorResult)" by (simp add: noResult_def)
  have wr: "fst (RW_tryWrite 0 0 (Some 1) ?w) = Return (Some False)"
    by (simp add: container_defs world_defs rw_defs chan_defs)
  have cr: "fst (Chan_tryRead 0 no_opts 0 ?w)
      = Return \<lparr>rv_closed = Some False, rv_reason = Value None, rv_ok = False, rv_value = None\<rparr>"
    by (simp add: container_defs world_defs rw_defs chan_defs)
  have cw: "fst (Chan_tryWrite 0 (Some 1) no_opts 0 ?w)
      = Return \<lparr>wv_ok = Some False, wv_error = False, wv_reason = Value None\<rparr>"
    by (simp add: container_defs world_defs rw_defs chan_defs)
  show ?thesis
    using try_not_ready_unchanged[of 0 0 ?w noResult "Some 1" no_opts
        "\<lparr>rv_closed = Some False, rv_reason = Value None, rv_ok = False, rv_value = None\<rparr>"
        "\<lparr>wv_ok = Some False, wv_error = False, wv_reason = Value None\<rparr>"]
      r d wr cr cw
    by simp
qed

text \<open>
  Claim C5. On a closed channel \<open>tryWrite(v)\<close> throws the \<open>ChannelError\<close>
  "channel already closed", \<open>tryWrite(v, {silent: true})\<close> returns
  \<open>{ok: false, error: true, reason}\<close> with that error as reason, and in both modes the
  state after the call is the state before it.
\<close>

theorem tryWrite_closed:
  "isClosed (chans w c) \<Longrightarrow>
     Chan_tryWrite c v \<lparr>signal = None, silent = False\<rparr> d w
       = (Throw (ChannelError ''channel already closed''), w) \<and>
     Chan_tryWrite c v \<lparr>signal = None, silent = True\<rparr> d w
       = (Return \<lparr>wv_ok = Some False, wv_error = True,
                  wv_reason = ChannelError ''channel already closed''\<rparr>, w)"
  by (simp add: Chan_tryWrite_def signal_aborted_def RW_tryWrite_closed)

theorem tryWrite_closed_witness:
  "case Chan_close 0 (world0 (\<lambda>c. 0) :: nat world) of
     None \<Rightarrow> False
   | Some (r, wc) \<Rightarrow>
       r = Return True \<and> isClosed (chans wc 0) \<and>
       Chan_tryWrite 0 (Some 1) \<lparr>signal = None, silent = False\<rparr> 0 wc
         = (Throw (ChannelError ''channel already closed''), wc) \<and>
       Chan_tryWrite 0 (Some 1) \<lparr>signal = None, silent = True\<rparr> 0 wc
         = (Return \<lparr>wv_ok = Some False, wv_error = True,
                    wv_reason = ChannelError ''channel already closed''\<rparr>, wc)"
proof -
  obtain wc where c: "Chan_close 0 (world0 (\<lambda>c. 0) :: nat world) = Some (Return True, wc)"
    and i: "isClosed (chans wc 0)"
    by (simp add: container_defs world_defs rw_defs chan_defs)
  show ?thesis
    using tryWrite_closed[OF i, of "Some 1" 0] c i by simp
qed

text \<open>
  Claim C7. When the signal of the options is already aborted, \<open>selectChan\<close> returns
  \<open>{reason: signal.reason}\<close> in silent mode and throws \<open>signal.reason\<close> otherwise, and
  the world after the call is the world before it: no outcome slot is reset, no case is
  tried or armed, no engine is touched, whatever the cases are.
\<close>

theorem selectChan_aborted:
  "signal_aborted (sel_signal opts) w \<Longrightarrow>
     selectChan opts rnd w =
       (if sel_silent opts then Return (SelAborted (signal_reason (sel_signal opts) w))
        else Throw (signal_reason (sel_signal opts) w), w)"
  by (simp add: selectChan_def)

theorem selectChan_aborted_witness:
  "signal_aborted (Some 0)
     (abort 0 (Value (Some 9)) (snd (Chan_tryWrite 0 (Some 1) no_opts 0 (world0 (\<lambda>c. 1) :: nat world)))) \<and>
   fst (Case_tryInvoke (ReadCase 0 0) True 0
     (abort 0 (Value (Some 9)) (snd (Chan_tryWrite 0 (Some 1) no_opts 0 (world0 (\<lambda>c. 1) :: nat world)))))
     = Return True \<and>
   selectChan \<lparr>sel_default = False, sel_silent = True, sel_signal = Some 0,
               sel_chans = Some [Some (ReadCase 0 0)]\<rparr> (\<lambda>n. 0)
     (abort 0 (Value (Some 9)) (snd (Chan_tryWrite 0 (Some 1) no_opts 0 (world0 (\<lambda>c. 1) :: nat world))))
     = (Return (SelAborted (Value (Some 9))),
        abort 0 (Value (Some 9)) (snd (Chan_tryWrite 0 (Some 1) no_opts 0 (world0 (\<lambda>c. 1) :: nat world))))"
proof -
  let ?w = "abort 0 (Value (Some 9))
              (snd (Chan_tryWrite 0 (Some 1) no_opts 0 (world0 (\<lambda>c. 1) :: nat world)))"
  have a: "signal_aborted (Some 0) ?w"
    by (simp add: container_defs world_defs rw_defs chan_defs)
  have r: "signal_reason (Some 0) ?w = Value (Some 9)"
    by (simp add: container_defs world_defs rw_defs chan_defs)
  have t: "fst (Case_tryInvoke (ReadCase 0 0) True 0 ?w) = Return True"
    by (simp add: container_defs world_defs rw_defs chan_defs)
  show ?thesis
    using selectChan_aborted[of "\<lparr>sel_default = False, sel_silent = True, sel_signal = Some 0,
               sel_chans = Some [Some (ReadCase 0 0)]\<rparr>" ?w "\<lambda>n. 0"] a r t
    by simp
qed

text \<open>
  Claim C2, the behaviour of the code. On a closed channel \<open>tryInvoke(true)\<close> of a
  write case returns \<open>false\<close> and leaves the outcome slot empty: \<open>tryWrite\<close> in silent
  mode returns \<open>{ok: false, error: true, reason}\<close>, whose \<open>ok\<close> is \<open>false\<close> and not
  \<open>undefined\<close>, so the branch that would store the error is never taken.
  \<open>selectChan\<close> in silent mode therefore parks the writer on the closed channel and
  returns a promise that stays pending.
\<close>

theorem WriteCase_tryInvoke_closed_silent:
  "case Chan_close 0 (world0 (\<lambda>c. 0) :: nat world) of
     None \<Rightarrow> False
   | Some (r, wc) \<Rightarrow>
       isClosed (chans wc 0) \<and>
       Case_tryInvoke (WriteCase 0 0 (Some 1)) True 0 wc = (Return False, wc) \<and>
       WriteCase_write 0 wc = None \<and>
       fst (selectChan \<lparr>sel_default = False, sel_silent = True, sel_signal = None,
                         sel_chans = Some [Some (WriteCase 0 0 (Some 1))]\<rparr> rnd wc)
         = Return (SelPromise 0) \<and>
       promises (snd (selectChan \<lparr>sel_default = False, sel_silent = True, sel_signal = None,
                         sel_chans = Some [Some (WriteCase 0 0 (Some 1))]\<rparr> rnd wc)) 0 = None"
proof -
  obtain wc where c: "Chan_close 0 (world0 (\<lambda>c. 0) :: nat world) = Some (Return True, wc)"
    and i: "isClosed (chans wc 0)"
    and s: "wcase_value wc 0 = None"
    and n: "next_promise wc = 0"
    and p: "promises wc 0 = None"
    and l: "writer_pool wc 0 = Actions_new" "Writer_list wc = None"
    by (simp add: container_defs world_defs rw_defs chan_defs)
  have t: "Case_tryInvoke (WriteCase 0 0 (Some 1)) True d wc = (Return False, wc)" for d
    using i by (simp add: Chan_tryWrite_def signal_aborted_def RW_tryWrite_closed)
  have sel: "fst (selectChan \<lparr>sel_default = False, sel_silent = True, sel_signal = None,
                         sel_chans = Some [Some (WriteCase 0 0 (Some 1))]\<rparr> rnd wc)
         = Return (SelPromise 0)"
    using i n by (simp add: selectChan_def signal_aborted_def
        Chan_tryWrite_def RW_tryWrite_closed new_promise_def split_beta Let_def)
  have pend: "promises (snd (selectChan \<lparr>sel_default = False, sel_silent = True, sel_signal = None,
                         sel_chans = Some [Some (WriteCase 0 0 (Some 1))]\<rparr> rnd wc)) 0 = None"
    using i n p l by (simp add: selectChan_def signal_aborted_def
        Chan_tryWrite_def RW_tryWrite_closed new_promise_def split_beta Let_def
        RW_write_def Writer_connect_def Writer_create_def new_WirteAction_def
        set_writer_pool_def upd_chan_def addEventListener_def)
  show ?thesis using c i t s sel pend by (simp add: WriteCase_write_def)
qed

theorem WriteCase_tryInvoke_closed_silent_witness:
  "case Chan_close 0 (world0 (\<lambda>c. 0) :: nat world) of
     None \<Rightarrow> False
   | Some (r, wc) \<Rightarrow>
       fst (Case_tryInvoke (WriteCase 0 0 (Some 1)) True 0 wc) = Return False \<and>
       WriteCase_write 0 wc = None"
  using WriteCase_tryInvoke_closed_silent[of "\<lambda>n. 0"]
  by (auto split: option.splits)

text \<open>
  Claim C1, the behaviour of the code. A read case parked on an open, empty channel
  and completed by \<open>close()\<close> stores the outcome
  \<open>{closed: true, ok: true, value: undefined}\<close>: the callback of \<open>_ReadCase.invoke\<close>
  sets \<open>ok: true\<close> in its end-of-stream branch too.
  \<^item> Armed by a direct \<open>invoke(() => {})\<close> on a new unbuffered channel: \<open>close()\<close>
    returns \<open>true\<close> and the slot holds that outcome.
  \<^item> Armed by \<open>selectChan\<close>, after a \<open>read()\<close> was parked on the same channel:
    \<open>close()\<close> resolves the promise of \<open>read()\<close> with \<open>{closed: true, ok: false}\<close>,
    then runs the callback of the case, which fills the slot with that outcome and
    calls the shared callback of \<open>selectChan\<close>; its \<open>cleanup\<close> calls
    \<open>conn.disconet()\<close>, so \<open>close()\<close> throws a \<open>TypeError\<close> and the promise of
    \<open>selectChan\<close> stays pending.
\<close>

theorem ReadCase_invoke_end_of_stream:
  "(case Chan_close 0 (snd (Case_invoke (ReadCase 0 0) NoopCb (world0 (\<lambda>c. 0) :: nat world))) of
      None \<Rightarrow> False
    | Some (r, w) \<Rightarrow>
        r = Return True \<and>
        ReadCase_read 0 w
          = Some \<lparr>rv_closed = Some True, rv_reason = Value None, rv_ok = True, rv_value = None\<rparr>) \<and>
   fst (selectChan \<lparr>sel_default = False, sel_silent = False, sel_signal = None,
                    sel_chans = Some [Some (ReadCase 0 0)]\<rparr> rnd
          (snd (Chan_read 0 no_opts 0 (world0 (\<lambda>c. 0) :: nat world))))
     = Return (SelPromise 1) \<and>
   (case Chan_close 0
           (snd (selectChan \<lparr>sel_default = False, sel_silent = False, sel_signal = None,
                              sel_chans = Some [Some (ReadCase 0 0)]\<rparr> rnd
                  (snd (Chan_read 0 no_opts 0 (world0 (\<lambda>c. 0) :: nat world))))) of
      None \<Rightarrow> False
    | Some (r, w) \<Rightarrow>
        r = Throw TypeError \<and>
        ReadCase_read 0 w
          = Some \<lparr>rv_closed = Some True, rv_reason = Value None, rv_ok = True, rv_value = None\<rparr> \<and>
        promises w 1 = None \<and>
        promises w 0
          = Some (ResolvedRead \<lparr>rv_closed = Some True, rv_reason = Value None,
                                 rv_ok = False, rv_value = None\<rparr>))"
  by (simp add: container_defs world_defs rw_defs chan_defs
        Reader_close_loop.simps Writer_close_loop.simps Let_def)

theorem ReadCase_invoke_end_of_stream_witness:
  "case Chan_close 0 (snd (Case_invoke (ReadCase 0 0) NoopCb (world0 (\<lambda>c. 0) :: nat world))) of
     None \<Rightarrow> False
   | Some (r, w) \<Rightarrow>
       map_option rv_closed (ReadCase_read 0 w) = Some (Some True) \<and>
       map_option rv_ok (ReadCase_read 0 w) = Some True"
  using ReadCase_invoke_end_of_stream[of "\<lambda>n. 0"]
  by (auto split: option.splits)

text \<open>
  Claim C4, the behaviour of the code. On the channel of the repository's own test,
  \<open>new Chan(5)\<close> with 10, 20 and 30 written and then closed, the asynchronous
  iterator yields 10 and, when resumed, throws \<open>undefined\<close>: after \<open>yield\<close> the loop
  body runs on into \<open>throw reason\<close>. On a closed channel with an empty buffer it
  completes without a value.
\<close>

theorem asyncIterator_throws_after_first_value:
  "(case Chan_close 0
           (snd (tryWrite_each 0 [Some 10, Some 20, Some 30] 0 (world0 (\<lambda>c. 5) :: nat world))) of
      None \<Rightarrow> False
    | Some (r, wc) \<Rightarrow>
        r = Return True \<and>
        map_option (\<lambda>(ys, e, w). (ys, e, Chan_length w 0)) (asyncIterator 0 0 [] wc)
          = Some ([Some 10], Thrown (Value None), 2)) \<and>
   (case Chan_close 0 (world0 (\<lambda>c. 5) :: nat world) of
      None \<Rightarrow> False
    | Some (r, wc) \<Rightarrow>
        map_option (\<lambda>(ys, e, w). (ys, e)) (asyncIterator 0 0 [] wc) = Some ([], Completed))"
  by (simp add: container_defs world_defs rw_defs chan_defs asyncIterator.simps
        Reader_close_loop.simps Writer_close_loop.simps Let_def)

theorem asyncIterator_throws_after_first_value_witness:
  "case Chan_close 0
          (snd (tryWrite_each 0 [Some 10, Some 20, Some 30] 0 (world0 (\<lambda>c. 5) :: nat world))) of
     None \<Rightarrow> False
   | Some (r, wc) \<Rightarrow>
       map_option (\<lambda>(ys, e, w). (ys, e, Chan_length w 0)) (asyncIterator 0 0 [] wc)
         = Some ([Some 10], Thrown (Value None), 2)"
  using asyncIterator_throws_after_first_value
  by (auto split: option.splits)

section \<open>Claims about buffered channels\<close>

text \<open>
  Claim C6. On a freshly constructed channel of capacity \<open>k \<ge> 1\<close>, for every
  sequence of \<open>k\<close> values: the \<open>k\<close> calls \<open>tryWrite(v1) .. tryWrite(vk)\<close> all return
  \<open>{ok: true}\<close>, one more \<open>tryWrite\<close> returns \<open>{ok: false}\<close> without \<open>error\<close> (full) and
  changes nothing, and the \<open>k\<close> calls of \<open>tryRead()\<close> that follow return
  \<open>{closed: false, ok: true, value: vi}\<close> for \<open>v1 .. vk\<close> in this order.
\<close>

theorem buffered_round_trip:
  assumes "1 \<le> k" "length vs = k" "chans w c = Chan_new (int k)"
  shows "fst (tryWrite_each c vs d w)
           = map (\<lambda>v. Return \<lparr>wv_ok = Some True, wv_error = False, wv_reason = Value None\<rparr>) vs \<and>
         Chan_tryWrite c v no_opts d (snd (tryWrite_each c vs d w))
           = (Return \<lparr>wv_ok = Some False, wv_error = False, wv_reason = Value None\<rparr>,
              snd (tryWrite_each c vs d w)) \<and>
         fst (tryRead_times c k d (snd (tryWrite_each c vs d w)))
           = map (\<lambda>v. Return \<lparr>rv_closed = Some False, rv_reason = Value None,
                                rv_ok = True, rv_value = v\<rparr>) vs"
proof -
  let ?w1 = "snd (tryWrite_each c vs d w)"
  from assms(1) have k: "0 < k" by simp
  note f = Chan_new_fresh[OF k]
  have l0: "list (chans w c) = Some (Ring_new k)" using assms(3) f(1) by simp
  have i0: "Ring_inv (Ring_new k :: 'a Ring)" using k by (rule Ring_inv_new)
  have r0: "Reader_isEmpty w c" and w0: "Writer_isEmpty w c" and c0: "\<not> isClosed (chans w c)"
    using assms(3) f
    by (simp_all add: Reader_isEmpty_def Writer_isEmpty_def reader_pool_def writer_pool_def
          Actions_length_def)
  have room: "ring_size (Ring_new k :: 'a Ring) + length vs \<le> length (arrs (Ring_new k :: 'a Ring))"
    using assms(2) by (simp add: Ring_new_def)
  from tryWrite_each_room[OF l0 i0 room r0 w0 c0, of d]
  obtain l' where w: "fst (tryWrite_each c vs d w)
        = map (\<lambda>v. Return \<lparr>wv_ok = Some True, wv_error = False, wv_reason = Value None\<rparr>) vs"
    and l1: "list (chans ?w1 c) = Some l'" and i1: "Ring_inv l'"
    and c1: "Ring_contents l' = Ring_contents (Ring_new k :: 'a Ring) @ vs"
    and n1: "length (arrs l') = length (arrs (Ring_new k :: 'a Ring))"
    and r1: "Reader_isEmpty ?w1 c" and w1: "Writer_isEmpty ?w1 c"
    and nc1: "\<not> isClosed (chans ?w1 c)"
    by blast
  from c1 have c1': "Ring_contents l' = vs" by (simp add: Ring_contents_new)
  then have sz: "ring_size l' = k" using Ring_contents_length[of l'] assms(2) by simp
  have full: "ring_size l' = length (arrs l')" using sz n1 by (simp add: Ring_new_def)
  have second: "Chan_tryWrite c v no_opts d ?w1
           = (Return \<lparr>wv_ok = Some False, wv_error = False, wv_reason = Value None\<rparr>, ?w1)"
    by (rule Chan_tryWrite_full[OF l1 full r1 nc1])
  from tryRead_times_buffered[OF l1 i1 _ w1, of k d] sz
  have third: "fst (tryRead_times c k d ?w1)
           = map (\<lambda>v. Return \<lparr>rv_closed = Some False, rv_reason = Value None,
                                rv_ok = True, rv_value = v\<rparr>) vs"
    using c1' assms(2) by auto
  show ?thesis using w second third by simp
qed

theorem buffered_round_trip_witness:
  "(1::nat) \<le> 2 \<and> length [Some (1::nat), Some 2] = 2 \<and>
   chans (world0 (\<lambda>c. 2) :: nat world) 0 = Chan_new (int 2) \<and>
   fst (tryWrite_each 0 [Some 1, Some 2] 0 (world0 (\<lambda>c. 2) :: nat world))
     = [Return \<lparr>wv_ok = Some True, wv_error = False, wv_reason = Value None\<rparr>,
        Return \<lparr>wv_ok = Some True, wv_error = False, wv_reason = Value None\<rparr>] \<and>
   Chan_tryWrite 0 (Some 3) no_opts 0
       (snd (tryWrite_each 0 [Some 1, Some 2] 0 (world0 (\<lambda>c. 2) :: nat world)))
     = (Return \<lparr>wv_ok = Some False, wv_error = False, wv_reason = Value None\<rparr>,
        snd (tryWrite_each 0 [Some 1, Some 2] 0 (world0 (\<lambda>c. 2) :: nat world))) \<and>
   fst (tryRead_times 0 2 0
          (snd (tryWrite_each 0 [Some 1, Some 2] 0 (world0 (\<lambda>c. 2) :: nat world))))
     = [Return \<lparr>rv_closed = Some False, rv_reason = Value None, rv_ok = True, rv_value = Some 1\<rparr>,
        Return \<lparr>rv_closed = Some False, rv_reason = Value None, rv_ok = True, rv_value = Some 2\<rparr>]"
proof -
  have h: "(1::nat) \<le> 2" "length [Some (1::nat), Some 2] = 2"
    "chans (world0 (\<lambda>c. 2) :: nat world) 0 = Chan_new (int 2)"
    by (simp_all add: world0_def)
  show ?thesis
    using buffered_round_trip[OF h, of 0 "Some 3"] h by simp
qed

section \<open>The refill of the buffer\<close>

text \<open>
  Claim C3, the behaviour of the code, on the input of the repository's test
  "Select WriteCase when buffer is full": \<open>ch = new Chan(1)\<close>, \<open>ch.tryWrite(99)\<close>,
  \<open>selectChan({chans: [ch.writeCase(100)]})\<close>, then \<open>ch.tryRead()\<close>. The select finds
  the buffer full, parks the write case and returns the pending promise 0, so the
  buffer holds 99 and a writer is parked. \<open>tryRead\<close> pops 99 and invokes the parked
  writer; the callback of the write case stores \<open>{ok: true}\<close> in its slot and calls
  the shared callback of \<open>selectChan\<close>, whose \<open>cleanup\<close> calls \<open>conn.disconet()\<close>.
  So \<open>tryRead\<close> throws a \<open>TypeError\<close> instead of returning 99, and \<open>list.push\<close> is
  never reached: afterwards the buffer is empty, the writer is gone from the pool, the
  promise of \<open>selectChan\<close> is still pending, the write case reports \<open>{ok: true}\<close>, and
  the next \<open>tryRead()\<close> finds nothing to read.

  When the writer was parked by \<open>ch.write(100)\<close> instead, whose callback calls no
  \<open>disconet\<close>, the same \<open>tryRead()\<close> returns 99, resolves the promise of \<open>write\<close> with
  \<open>{ok: true}\<close> and leaves 100 in the buffer.
\<close>

theorem tryRead_refill_select_writer:
  "fst (selectChan \<lparr>sel_default = False, sel_silent = False, sel_signal = None,
                    sel_chans = Some [Some (WriteCase 0 0 (Some 100))]\<rparr> rnd
          (snd (Chan_tryWrite 0 (Some 99) no_opts 0 (world0 (\<lambda>c. 1) :: nat world))))
     = Return (SelPromise 0) \<and>
   (let w = snd (selectChan \<lparr>sel_default = False, sel_silent = False, sel_signal = None,
                             sel_chans = Some [Some (WriteCase 0 0 (Some 100))]\<rparr> rnd
                   (snd (Chan_tryWrite 0 (Some 99) no_opts 0 (world0 (\<lambda>c. 1) :: nat world))));
        w' = snd (Chan_tryRead 0 no_opts d w)
    in map_option Ring_contents (list (chans w 0)) = Some [Some 99] \<and>
       \<not> Writer_isEmpty w 0 \<and>
       fst (RW_tryRead d 0 w) = Throw TypeError \<and>
       fst (Chan_tryRead 0 no_opts d w) = Throw TypeError \<and>
       map_option Ring_contents (list (chans w' 0)) = Some [] \<and>
       Writer_isEmpty w' 0 \<and>
       promises w' 0 = None \<and>
       WriteCase_write 0 w'
         = Some \<lparr>wv_ok = Some True, wv_error = False, wv_reason = Value None\<rparr> \<and>
       fst (Chan_tryRead 0 no_opts d w')
         = Return \<lparr>rv_closed = Some False, rv_reason = Value None, rv_ok = False,
                    rv_value = None\<rparr>) \<and>
   (let w = snd (Chan_write 0 (Some 100) no_opts 0
                   (snd (Chan_tryWrite 0 (Some 99) no_opts 0 (world0 (\<lambda>c. 1) :: nat world))));
        w' = snd (Chan_tryRead 0 no_opts d w)
    in map_option Ring_contents (list (chans w 0)) = Some [Some 99] \<and>
       \<not> Writer_isEmpty w 0 \<and>
       fst (Chan_tryRead 0 no_opts d w)
         = Return \<lparr>rv_closed = Some False, rv_reason = Value None, rv_ok = True,
                    rv_value = Some 99\<rparr> \<and>
       map_option Ring_contents (list (chans w' 0)) = Some [Some 100] \<and>
       Writer_isEmpty w' 0 \<and>
       promises w' 0
         = Some (ResolvedWrite \<lparr>wv_ok = Some True, wv_error = False, wv_reason = Value None\<rparr>))"
  by (simp add: container_defs world_defs rw_defs chan_defs Ring_contents_def Let_def)

theorem tryRead_refill_select_writer_witness:
  "fst (Chan_tryRead 0 no_opts 0
          (snd (selectChan \<lparr>sel_default = False, sel_silent = False, sel_signal = None,
                             sel_chans = Some [Some (WriteCase 0 0 (Some 100))]\<rparr> (\<lambda>n. 0)
                  (snd (Chan_tryWrite 0 (Some 99) no_opts 0 (world0 (\<lambda>c. 1) :: nat world))))))
     = Throw TypeError"
  using tryRead_refill_select_writer[of "\<lambda>n. 0" 0]
  by (simp add: Let_def)

section \<open>The invariant of the reader pool\<close>

text \<open>
  Claim C8, as amended. Take any sequence of calls of \<open>tryRead\<close>, \<open>tryWrite\<close>,
  \<open>read\<close>, \<open>write\<close>, \<open>close\<close>, \<open>wait\<close>, \<open>selectChan\<close>, \<open>reset\<close>, \<open>tryInvoke\<close> and
  \<open>invoke(cb)\<close> of a case, \<open>disconet()\<close> and \<open>disconnect()\<close> of a connection, and
  aborts of a signal, made from the initial world, in which
  \<^item> \<open>invoke\<close> is called on a read case only when the buffer of its channel is empty
    at that moment, and
  \<^item> a callback \<open>cb\<close> passed to \<open>invoke\<close> does not call the library again (it returns
    or it throws).

  Every call of the sequence ends, by returning or by throwing, and in the world
  reached at the end every channel with a parked reader has an empty buffer. So when
  \<open>tryWrite\<close> takes its handoff branch, which it does only when a reader is parked, no
  value is in the buffer.
\<close>

theorem readers_wait_on_empty_reachable:
  assumes "careful xs (world0 bufs)"
  shows "\<exists>w. run xs (world0 bufs) = Some w \<and> readers_wait_on_empty w"
  using run_keeps[OF world_inv_world0 assms] by (auto simp: world_inv_def)

theorem readers_wait_on_empty_reachable_witness:
  "careful
     [TryWrite 0 (Some (1::nat)) no_opts 0, Arm (ReadCase 5 1) NoopCb,
      Select \<lparr>sel_default = False, sel_silent = False, sel_signal = None,
              sel_chans = Some [Some (ReadCase 0 1), Some (WriteCase 0 0 (Some 2))]\<rparr> (\<lambda>n. 0),
      TryRead 0 no_opts 0]
     (world0 (\<lambda>c. if c = 0 then 1 else 0)) \<and>
   (\<exists>w. run [TryWrite 0 (Some (1::nat)) no_opts 0, Arm (ReadCase 5 1) NoopCb,
              Select \<lparr>sel_default = False, sel_silent = False, sel_signal = None,
                      sel_chans = Some [Some (ReadCase 0 1), Some (WriteCase 0 0 (Some 2))]\<rparr> (\<lambda>n. 0),
              TryRead 0 no_opts 0]
             (world0 (\<lambda>c. if c = 0 then 1 else 0)) = Some w \<and>
        readers_wait_on_empty w \<and> \<not> Reader_isEmpty w 1 \<and> Chan_length w 1 = 0 \<and>
        Chan_length w 0 = 0)"
proof -
  let ?xs = "[TryWrite 0 (Some (1::nat)) no_opts 0, Arm (ReadCase 5 1) NoopCb,
      Select \<lparr>sel_default = False, sel_silent = False, sel_signal = None,
              sel_chans = Some [Some (ReadCase 0 1), Some (WriteCase 0 0 (Some 2))]\<rparr> (\<lambda>n. 0),
      TryRead 0 no_opts 0]"
  let ?w0 = "world0 (\<lambda>c. if c = 0 then 1 else 0) :: nat world"
  have h: "careful ?xs ?w0"
    by (simp add: container_defs world_defs rw_defs chan_defs Let_def)
  from readers_wait_on_empty_reachable[OF h]
  obtain w where w: "run ?xs ?w0 = Some w" and inv: "readers_wait_on_empty w" by blast
  have e: "map_option (\<lambda>w. (Reader_isEmpty w 1, Chan_length w 1, Chan_length w 0)) (run ?xs ?w0)
      = Some (False, 0, 0)"
    by (simp add: container_defs world_defs rw_defs chan_defs Let_def)
  from e w have "\<not> Reader_isEmpty w 1 \<and> Chan_length w 1 = 0 \<and> Chan_length w 0 = 0" by simp
  with h w inv show ?thesis by blast
qed

text \<open>
  The public \<open>invoke\<close> of a read case parks a reader whatever the buffer holds. After
  \<open>new Chan(1)\<close>, \<open>tryWrite(1)\<close> and \<open>readCase().invoke(() => {})\<close> a reader is parked
  while the buffer holds a value; the \<open>tryWrite(2)\<close> that follows hands 2 to that
  reader and leaves 1 in the buffer.
\<close>

theorem direct_arming_counterexample:
  "map_option (\<lambda>w. (Reader_isEmpty w 0, Chan_length w 0, readers_wait_on_empty w))
     (run [TryWrite 0 (Some (1::nat)) no_opts 0, Arm (ReadCase 0 0) NoopCb] (world0 (\<lambda>c. 1)))
     = Some (False, 1, False) \<and>
   map_option (\<lambda>w. (Reader_isEmpty w 0, Chan_length w 0))
     (run [TryWrite 0 (Some (1::nat)) no_opts 0, Arm (ReadCase 0 0) NoopCb,
           TryWrite 0 (Some 2) no_opts 0] (world0 (\<lambda>c. 1)))
     = Some (True, 1)"
proof -
  let ?r = "run [TryWrite 0 (Some (1::nat)) no_opts 0, Arm (ReadCase 0 0) NoopCb] (world0 (\<lambda>c. 1))"
  have a: "map_option (\<lambda>w. (Reader_isEmpty w 0, Chan_length w 0)) ?r = Some (False, 1)"
    by (simp add: container_defs world_defs rw_defs chan_defs Let_def)
  then obtain w where w: "?r = Some w" "\<not> Reader_isEmpty w 0" "Chan_length w 0 = 1"
    by (cases ?r) auto
  then have "\<not> readers_wait_on_empty w" by (auto simp: readers_wait_on_empty_def)
  with w have first: "map_option (\<lambda>w. (Reader_isEmpty w 0, Chan_length w 0, readers_wait_on_empty w)) ?r
     = Some (False, 1, False)" by simp
  have second: "map_option (\<lambda>w. (Reader_isEmpty w 0, Chan_length w 0))
     (run [TryWrite 0 (Some (1::nat)) no_opts 0, Arm (ReadCase 0 0) NoopCb,
           TryWrite 0 (Some 2) no_opts 0] (world0 (\<lambda>c. 1)))
     = Some (True, 1)"
    by (simp add: container_defs world_defs rw_defs chan_defs Let_def)
  from first second show ?thesis by simp
qed

end
